theory Spec2Isabelle
  imports Main "HOL-Library.Char_ord" "HOL-Library.List_Lexorder" "HOL-Library.Multiset"
begin

section \<open>Go runtime and standard library pieces used by package mux\<close>

text \<open>
  A Go string is a sequence of bytes; \<open>len\<close> counts bytes and \<open>s[i]\<close> reads one byte.
  It is modelled by \<^typ>\<open>string\<close> (a list of 8-bit characters). An index or a slice
  expression that is out of range panics; the two panics are values of \<open>panic\<close>.
\<close>

datatype panic = IndexOutOfRange | SliceBoundsOutOfRange

text \<open>\<open>s[lo:hi]\<close>: panics unless \<open>lo \<le> hi \<le> len(s)\<close>.\<close>

definition slice :: "string \<Rightarrow> nat \<Rightarrow> nat \<Rightarrow> panic + string" where
  "slice s lo hi =
     (if lo \<le> hi \<and> hi \<le> length s then Inr (take (hi - lo) (drop lo s))
      else Inl SliceBoundsOutOfRange)"

text \<open>\<open>strings.IndexByte(s, c)\<close>: the index of the first \<open>c\<close> in \<open>s\<close>, or \<open>-1\<close>.\<close>

fun IndexByte :: "string \<Rightarrow> char \<Rightarrow> int" where
  "IndexByte [] c = - 1"
| "IndexByte (x # xs) c =
     (if x = c then 0 else (let i = IndexByte xs c in if i < 0 then - 1 else i + 1))"

text \<open>
  \<open>utf8.DecodeRuneInString(s)\<close> returns the first rune of \<open>s\<close> and its width in bytes.
  \<open>Match\<close> uses the width only. The width is 0 for the empty string, 1 for an ASCII byte
  and for a byte that does not begin a well-formed encoding, and the length of the
  encoding otherwise. \<open>utf8_first\<close> is the library's table \<open>first\<close> joined with
  \<open>acceptRanges\<close>: for a leading byte, the size of the encoding and the range the second
  byte must lie in.
\<close>

definition utf8_first :: "nat \<Rightarrow> (nat \<times> nat \<times> nat) option" where
  "utf8_first b =
     (if b < 0xC2 then None
      else if b < 0xE0 then Some (2, 0x80, 0xBF)
      else if b = 0xE0 then Some (3, 0xA0, 0xBF)
      else if b < 0xED then Some (3, 0x80, 0xBF)
      else if b = 0xED then Some (3, 0x80, 0x9F)
      else if b < 0xF0 then Some (3, 0x80, 0xBF)
      else if b = 0xF0 then Some (4, 0x90, 0xBF)
      else if b < 0xF4 then Some (4, 0x80, 0xBF)
      else if b = 0xF4 then Some (4, 0x80, 0x8F)
      else None)"

definition is_cont :: "char \<Rightarrow> bool" where
  "is_cont c = (0x80 \<le> (of_char c :: nat) \<and> (of_char c :: nat) \<le> 0xBF)"

definition DecodeRuneInString_width :: "string \<Rightarrow> nat" where
  "DecodeRuneInString_width s =
     (case s of
        [] \<Rightarrow> 0
      | s0 # _ \<Rightarrow>
          (case utf8_first (of_char s0) of
             None \<Rightarrow> 1
           | Some (sz, lo, hi) \<Rightarrow>
               if length s < sz then 1
               else if (of_char (s ! 1) :: nat) < lo \<or> hi < (of_char (s ! 1) :: nat) then 1
               else if sz \<le> 2 then 2
               else if \<not> is_cont (s ! 2) then 1
               else if sz \<le> 3 then 3
               else if \<not> is_cont (s ! 3) then 1
               else 4))"

section \<open>The capture list \<open>Vars\<close>\<close>

type_synonym Vars = "(string \<times> string) list"

text \<open>\<open>Vars.Set\<close>: overwrite the first pair with the key in place, or append a new pair.\<close>

fun Vars_Set :: "Vars \<Rightarrow> string \<Rightarrow> string \<Rightarrow> Vars" where
  "Vars_Set [] k v = [(k, v)]"
| "Vars_Set (p # ps) k v = (if fst p = k then (k, v) # ps else p # Vars_Set ps k v)"

text \<open>\<open>Vars.Get\<close>: the value of the first pair with the key, or the empty string.\<close>

fun Vars_Get :: "Vars \<Rightarrow> string \<Rightarrow> string" where
  "Vars_Get [] k = []"
| "Vars_Get (p # ps) k = (if fst p = k then snd p else Vars_Get ps k)"

text \<open>\<open>Vars.Reset\<close>: \<open>(*vars)[:0]\<close>, the slice cut to length 0.\<close>

definition Vars_Reset :: "Vars \<Rightarrow> Vars" where
  "Vars_Reset vs = take 0 vs"

section \<open>\<open>Match\<close>\<close>

text \<open>The local variables of \<open>Match\<close>, together with the capture list it writes to.\<close>

record state =
  key :: string
  nx :: nat
  vx :: nat
  px :: nat
  tx :: nat
  nextPx :: nat
  nextTx :: nat
  vars :: Vars

text \<open>What one pass through the loop body does: \<open>continue\<close>, or \<open>return\<close>.\<close>

datatype step = Continue state | Return bool Vars

text \<open>
  The tail of the loop body (the code after the \<open>switch\<close>): resume at the retry point if
  its text position is still inside the text and the character just skipped is not a
  \<open>/\<close>; otherwise reset the capture list and return false. \<open>pattern[px]\<close> and
  \<open>text[tx-1]\<close> are index expressions and panic out of range; \<open>&&\<close> and \<open>||\<close>
  evaluate left to right and stop early.
\<close>

definition retry :: "string \<Rightarrow> string \<Rightarrow> state \<Rightarrow> panic + step" where
  "retry pattern text s =
     (if nextTx s \<le> length text then
        (let s1 = s\<lparr>px := nextPx s, tx := nextTx s\<rparr> in
         if \<not> px s1 < length pattern then Inl IndexOutOfRange
         else if pattern ! px s1 = CHR ''*'' \<or> pattern ! px s1 = CHR ''{'' then
           (if tx s1 = 0 \<or> \<not> tx s1 - 1 < length text then Inl IndexOutOfRange
            else if text ! (tx s1 - 1) \<noteq> CHR ''/'' then Inr (Continue s1)
            else Inr (Return False (Vars_Reset (vars s1))))
         else Inr (Return False (Vars_Reset (vars s1))))
      else Inr (Return False (Vars_Reset (vars s))))"

text \<open>
  The \<open>case '*', '{'\<close> branch. For \<open>{\<close>, the name is parsed only when \<open>nx < px\<close>, that is
  when this opener has not been parsed before; \<open>nx\<close> is the sum of \<open>px\<close> and the result
  of \<open>IndexByte\<close>, which is \<open>-1\<close> when there is no \<open>}\<close>, and \<open>pattern[px:nx]\<close> is a
  slice expression.
\<close>

definition wildcard :: "string \<Rightarrow> state \<Rightarrow> char \<Rightarrow> panic + step" where
  "wildcard pattern s c =
     (let s1 = s\<lparr>nextPx := px s, nextTx := tx s + 1, px := px s + 1\<rparr> in
      if c = CHR ''{'' then
        (if nx s1 < px s1 then
           (let n = int (px s1) + IndexByte (drop (px s1) pattern) CHR ''}'' in
            if n < int (px s1) \<or> int (length pattern) < n then Inl SliceBoundsOutOfRange
            else
              (let k = take (nat n - px s1) (drop (px s1) pattern);
                   s2 = s1\<lparr>vx := tx s1, nx := nat n, key := k\<rparr>
               in Inr (Continue (s2\<lparr>px := px s2 + (length (key s2) + 1)\<rparr>))))
         else Inr (Continue (s1\<lparr>px := px s1 + (length (key s1) + 1)\<rparr>)))
      else Inr (Continue s1))"

text \<open>The \<open>default\<close> branch, taken when the text has the literal character \<open>c\<close> at \<open>tx\<close>.\<close>

definition literal :: "string \<Rightarrow> string \<Rightarrow> state \<Rightarrow> panic + step" where
  "literal pattern text s =
     (if px s > 0 \<and> pattern ! (px s - 1) = CHR ''}'' then
        (case slice text (vx s) (tx s) of
           Inl e \<Rightarrow> Inl e
         | Inr v \<Rightarrow>
             Inr (Continue (s\<lparr>vars := Vars_Set (vars s) (key s) v,
                               px := px s + 1, tx := tx s + 1\<rparr>)))
      else Inr (Continue (s\<lparr>px := px s + 1, tx := tx s + 1\<rparr>)))"

text \<open>One pass through the loop body, entered with \<open>px < len(pattern) || tx < len(text)\<close>.\<close>

definition Match_body :: "string \<Rightarrow> string \<Rightarrow> state \<Rightarrow> panic + step" where
  "Match_body pattern text s =
     (if px s < length pattern then
        (let c = pattern ! px s in
         if c = CHR ''?'' then
           (if tx s < length text \<and> text ! tx s \<noteq> CHR ''/'' then
              (let n = DecodeRuneInString_width (drop (tx s) text) in
               Inr (Continue (s\<lparr>px := px s + 1, tx := tx s + n\<rparr>)))
            else retry pattern text s)
         else if c = CHR ''*'' \<or> c = CHR ''{'' then wildcard pattern s c
         else
           (if tx s < length text \<and> text ! tx s = c then literal pattern text s
            else retry pattern text s))
      else retry pattern text s)"

text \<open>The code after the loop: bind the capture that ends the pattern, return true.\<close>

definition finish :: "string \<Rightarrow> string \<Rightarrow> state \<Rightarrow> panic + bool \<times> Vars" where
  "finish pattern text s =
     (if px s > 0 then
        (if \<not> px s - 1 < length pattern then Inl IndexOutOfRange
         else if pattern ! (px s - 1) = CHR ''}'' then
           (case slice text (vx s) (tx s) of
              Inl e \<Rightarrow> Inl e
            | Inr v \<Rightarrow> Inr (True, Vars_Set (vars s) (key s) v))
         else Inr (True, vars s))
      else Inr (True, vars s))"

text \<open>
  The order in which the loop's states decrease: first the room left for the retry
  point's text position, then whether the state is one that has just resumed at the
  retry point, then the room left for the pattern position.
\<close>

definition resumed :: "string \<Rightarrow> string \<Rightarrow> state \<Rightarrow> bool" where
  "resumed pattern text s =
     (px s = nextPx s \<and> tx s = nextTx s \<and> px s < length pattern \<and>
      (pattern ! px s = CHR ''*'' \<or> pattern ! px s = CHR ''{'') \<and> tx s \<le> length text)"

definition Match_order :: "(string \<times> string \<times> state) rel" where
  "Match_order =
     measures [\<lambda>(pattern, text, s). length text + 1 - min (nextTx s) (tx s + 1),
               \<lambda>(pattern, text, s). if resumed pattern text s then 0 else 1,
               \<lambda>(pattern, text, s). length pattern - px s]"

text \<open>What a pass that continues has done to the cursors, branch by branch.\<close>

lemma retry_Continue:
  assumes "retry p t s = Inr (Continue s')"
  shows "s' = s\<lparr>px := nextPx s, tx := nextTx s\<rparr> \<and> nextTx s \<le> length t \<and> nextPx s < length p
    \<and> (p ! nextPx s = CHR ''*'' \<or> p ! nextPx s = CHR ''{'') \<and> 0 < nextTx s
    \<and> t ! (nextTx s - 1) \<noteq> CHR ''/''"
  using assms unfolding retry_def Let_def
  by (simp split: if_splits)

lemma wildcard_Continue:
  assumes "wildcard p s c = Inr (Continue s')"
  shows "nextPx s' = px s \<and> nextTx s' = tx s + 1 \<and> px s < px s' \<and> tx s' = tx s \<and> vars s' = vars s"
  using assms unfolding wildcard_def Let_def
  by (auto split: if_splits)

lemma literal_Continue:
  assumes "literal p t s = Inr (Continue s')"
  shows "nextPx s' = nextPx s \<and> nextTx s' = nextTx s \<and> px s' = px s + 1 \<and> tx s' = tx s + 1"
  using assms unfolding literal_def Let_def
  by (auto split: if_splits sum.splits)

lemma body_decreases:
  assumes b: "Match_body p t s = Inr (Continue s')"
  shows "((p, t, s'), (p, t, s)) \<in> Match_order"
proof -
  consider (q) "px s < length p" "p ! px s = CHR ''?''" "tx s < length t" "t ! tx s \<noteq> CHR ''/''"
      "s' = s\<lparr>px := px s + 1, tx := tx s + DecodeRuneInString_width (drop (tx s) t)\<rparr>"
    | (w) "px s < length p" "p ! px s = CHR ''*'' \<or> p ! px s = CHR ''{''"
      "wildcard p s (p ! px s) = Inr (Continue s')"
    | (l) "px s < length p" "p ! px s \<noteq> CHR ''*''" "p ! px s \<noteq> CHR ''{''"
      "literal p t s = Inr (Continue s')"
    | (r) "\<not> (px s < length p \<and> (p ! px s = CHR ''*'' \<or> p ! px s = CHR ''{''))"
      "retry p t s = Inr (Continue s')"
    using b unfolding Match_body_def Let_def by (auto split: if_splits)
  then show ?thesis
  proof cases
    case q
    then show ?thesis
      unfolding Match_order_def resumed_def by (simp add: min_def) arith
  next
    case w
    from wildcard_Continue[OF w(3)] w(1,2) show ?thesis
      unfolding Match_order_def resumed_def by (simp add: min_def) arith
  next
    case l
    from literal_Continue[OF l(4)] l(1,2,3) show ?thesis
      unfolding Match_order_def resumed_def by (simp add: min_def) arith
  next
    case r
    from retry_Continue[OF r(2)] r(1) show ?thesis
      unfolding Match_order_def resumed_def by (simp add: min_def) arith
  qed
qed

function Match_loop :: "string \<Rightarrow> string \<Rightarrow> state \<Rightarrow> panic + bool \<times> Vars" where
  "Match_loop pattern text s =
     (if px s < length pattern \<or> tx s < length text then
        (case Match_body pattern text s of
           Inl e \<Rightarrow> Inl e
         | Inr (Continue s') \<Rightarrow> Match_loop pattern text s'
         | Inr (Return b vs) \<Rightarrow> Inr (b, vs))
      else finish pattern text s)"
  by pat_completeness auto
termination
proof (relation Match_order)
  show "wf Match_order"
    by (simp add: Match_order_def)
next
  fix p t s x s'
  assume "Match_body p t s = Inr x" and "x = Continue s'"
  then show "((p, t, s'), (p, t, s)) \<in> Match_order"
    using body_decreases by simp
qed

declare Match_loop.simps [simp del]

definition Match :: "string \<Rightarrow> string \<Rightarrow> Vars \<Rightarrow> panic + bool \<times> Vars" where
  "Match pattern text vs =
     Match_loop pattern text
       \<lparr>key = [], nx = 0, vx = 0, px = 0, tx = 0, nextPx = 0, nextTx = 0, vars = vs\<rparr>"

text \<open>
  What the caller sees of a call apart from the capture list: the panic, or the boolean.
\<close>

definition verdict :: "panic + bool \<times> Vars \<Rightarrow> panic + bool" where
  "verdict r = (case r of Inl e \<Rightarrow> Inl e | Inr (b, vs) \<Rightarrow> Inr b)"

text \<open>
  The loop as a relation between states: \<open>(s', s)\<close> is in it when the loop is entered
  in \<open>s\<close> and the body continues with \<open>s'\<close>.
\<close>

definition Match_iter :: "string \<Rightarrow> string \<Rightarrow> state rel" where
  "Match_iter pattern text =
     {(s', s). (px s < length pattern \<or> tx s < length text) \<and>
               Match_body pattern text s = Inr (Continue s')}"

text \<open>A step with the capture list blanked out, to compare two runs.\<close>

definition ctl_step :: "panic + step \<Rightarrow> panic + step" where
  "ctl_step r =
     (case r of
        Inl e \<Rightarrow> Inl e
      | Inr (Continue s) \<Rightarrow> Inr (Continue (s\<lparr>vars := []\<rparr>))
      | Inr (Return b vs) \<Rightarrow> Inr (Return b []))"

section \<open>\<open>Method.ServeHTTP\<close>\<close>

text \<open>
  The dispatcher reads one field of the request, calls the handler it finds, and
  otherwise calls the response writer. The handlers and the response writer belong to
  \<open>net/http\<close>; the model records the calls made on them, in order. A handler is a
  value of any type \<open>'h\<close>.
\<close>

record request =
  Method :: string

datatype 'h call =
    Handler_ServeHTTP 'h request
  | Header_Set string string
  | http_Error string nat
  | WriteHeader nat

definition MethodOptions :: string where
  "MethodOptions = ''OPTIONS''"

definition StatusMethodNotAllowed :: nat where
  "StatusMethodNotAllowed = 405"

text \<open>\<open>strings.Join(elems, sep)\<close>.\<close>

fun Join :: "string list \<Rightarrow> string \<Rightarrow> string" where
  "Join [] sep = []"
| "Join [x] sep = x"
| "Join (x # y # ys) sep = x @ sep @ Join (y # ys) sep"

text \<open>
  The list \<open>allow\<close>: it starts as \<open>[OPTIONS]\<close>, the loop over the keys of the map appends
  the upper-case form of every key that is not \<open>OPTIONS\<close>, and \<open>sort.Strings\<close> sorts
  it (bytewise lexicographic order, the order of \<^typ>\<open>string\<close> here). Go leaves the
  order in which \<open>range\<close> visits a map open: \<open>ks\<close> is that order, any list without
  repetition of the keys of the map. \<open>strings.ToUpper\<close> is a parameter.
\<close>

definition allow_list :: "(string \<Rightarrow> string) \<Rightarrow> string list \<Rightarrow> string list" where
  "allow_list ToUpper ks =
     sort (foldl (\<lambda>allow k. if ToUpper k \<noteq> MethodOptions then allow @ [ToUpper k] else allow)
             [MethodOptions] ks)"

text \<open>\<open>ServeHTTP\<close> of \<open>mux.go\<close>, which reports the 405 through \<open>http.Error\<close>.\<close>

definition ServeHTTP ::
  "(string \<Rightarrow> string) \<Rightarrow> (string \<rightharpoonup> 'h) \<Rightarrow> string list \<Rightarrow> request \<Rightarrow> 'h call list" where
  "ServeHTTP ToUpper route ks req =
     (let method = ToUpper (Method req) in
      case route method of
        Some h \<Rightarrow> [Handler_ServeHTTP h req]
      | None \<Rightarrow>
          Header_Set ''Allow'' (Join (allow_list ToUpper ks) '', '') #
          (if method \<noteq> MethodOptions
           then [http_Error ''405 method not allowed'' StatusMethodNotAllowed] else []))"

text \<open>The other copy of \<open>ServeHTTP\<close> in the sources, which calls \<open>rw.WriteHeader\<close>.\<close>

definition ServeHTTP_part_002 ::
  "(string \<Rightarrow> string) \<Rightarrow> (string \<rightharpoonup> 'h) \<Rightarrow> string list \<Rightarrow> request \<Rightarrow> 'h call list" where
  "ServeHTTP_part_002 ToUpper route ks req =
     (let method = ToUpper (Method req) in
      case route method of
        Some h \<Rightarrow> [Handler_ServeHTTP h req]
      | None \<Rightarrow>
          Header_Set ''Allow'' (Join (allow_list ToUpper ks) '', '') #
          (if method \<noteq> MethodOptions then [WriteHeader StatusMethodNotAllowed] else []))"

text \<open>What \<open>strings.ToUpper\<close> does to ASCII letters, for the examples.\<close>

definition ToUpper_ascii :: "string \<Rightarrow> string" where
  "ToUpper_ascii s =
     map (\<lambda>c. if CHR ''a'' \<le> c \<and> c \<le> CHR ''z'' then char_of (of_char c - (32::nat)) else c) s"

definition example_route :: "string \<rightharpoonup> nat" where
  "example_route = [''GET'' \<mapsto> 1, ''PUT'' \<mapsto> 2, ''POST'' \<mapsto> 3, ''PATCH'' \<mapsto> 4]"

section \<open>Reference semantics of patterns\<close>

text \<open>
  The second description of matching, written from the grammar in \<open>Match\<close>'s comment
  and not from its code: a pattern is a list of terms, and a text matches when it can be
  cut into one span per term.
\<close>

datatype pterm = Lit char | AnyOne | Star | Named string

text \<open>
  The terms of a pattern, left to right. A name runs up to the next \<open>}\<close>; a \<open>{\<close> with
  no \<open>}\<close> after it is not a pattern.
\<close>

function spec_parse :: "string \<Rightarrow> pterm list option" where
  "spec_parse [] = Some []"
| "spec_parse (c # cs) =
     (if c = CHR ''*'' then map_option (Cons Star) (spec_parse cs)
      else if c = CHR ''?'' then map_option (Cons AnyOne) (spec_parse cs)
      else if c = CHR ''{'' then
        (if CHR ''}'' \<in> set cs then
           map_option (Cons (Named (takeWhile (\<lambda>x. x \<noteq> CHR ''}'') cs)))
             (spec_parse (tl (dropWhile (\<lambda>x. x \<noteq> CHR ''}'') cs)))
         else None)
      else map_option (Cons (Lit c)) (spec_parse cs))"
  by pat_completeness auto
termination
proof (relation "measure length")
  fix c :: char and cs :: string
  have "length (tl (dropWhile (\<lambda>x. x \<noteq> CHR ''}'') cs)) \<le> length cs"
    using length_dropWhile_le[of "\<lambda>x. x \<noteq> CHR ''}''" cs] by simp
  then show "(tl (dropWhile (\<lambda>x. x \<noteq> CHR ''}'') cs), c # cs) \<in> measure length"
    by simp
qed simp_all

text \<open>
  The spans a term matches: a literal its own character; \<open>?\<close> one rune that does not
  begin with \<open>/\<close>, as the UTF-8 decoder delimits it; \<open>*\<close> and \<open>{name}\<close> any run of
  characters other than \<open>/\<close>.
\<close>

fun spec_span :: "pterm \<Rightarrow> string \<Rightarrow> bool" where
  "spec_span (Lit c) w = (w = [c])"
| "spec_span AnyOne w = (w \<noteq> [] \<and> hd w \<noteq> CHR ''/'' \<and> DecodeRuneInString_width w = length w)"
| "spec_span Star w = (CHR ''/'' \<notin> set w)"
| "spec_span (Named k) w = (CHR ''/'' \<notin> set w)"

text \<open>\<open>sp\<close> cuts \<open>text\<close> into spans, one for each term of \<open>ts\<close>, in order.\<close>

definition spec_match :: "pterm list \<Rightarrow> string list \<Rightarrow> string \<Rightarrow> bool" where
  "spec_match ts sp text = (list_all2 spec_span ts sp \<and> concat sp = text)"

text \<open>The names of the named terms with their spans, in pattern order.\<close>

fun spec_captures :: "pterm list \<Rightarrow> string list \<Rightarrow> (string \<times> string) list" where
  "spec_captures (Named k # ts) (w # sp) = (k, w) # spec_captures ts sp"
| "spec_captures (x # ts) (w # sp) = spec_captures ts sp"
| "spec_captures ts sp = []"

text \<open>\<open>Vars.Set\<close> applied for each pair in turn.\<close>

definition set_all :: "Vars \<Rightarrow> (string \<times> string) list \<Rightarrow> Vars" where
  "set_all vs cs = foldl (\<lambda>vs kv. Vars_Set vs (fst kv) (snd kv)) vs cs"

text \<open>
  The patterns for which the binding of captures is proved below: every named term is
  followed by a literal character or ends the pattern, and no literal is a \<open>}\<close>.
\<close>

fun capture_friendly :: "pterm list \<Rightarrow> bool" where
  "capture_friendly [] = True"
| "capture_friendly (Lit c # ts) = (c \<noteq> CHR ''}'' \<and> capture_friendly ts)"
| "capture_friendly (Named k # ts) =
     ((case ts of [] \<Rightarrow> True | Lit c # r \<Rightarrow> True | x # r \<Rightarrow> False) \<and> capture_friendly ts)"
| "capture_friendly (x # ts) = capture_friendly ts"

definition friendly_pattern :: "string \<Rightarrow> bool" where
  "friendly_pattern p = (case spec_parse p of None \<Rightarrow> False | Some ts \<Rightarrow> capture_friendly ts)"

text \<open>The names of the named terms, in pattern order, with repetitions.\<close>

fun term_names :: "pterm list \<Rightarrow> string list" where
  "term_names [] = []"
| "term_names (Named k # ts) = k # term_names ts"
| "term_names (x # ts) = term_names ts"



text \<open>The decoder consumes at least one byte of a string that is not empty, and no more than there are.\<close>

lemma utf8_first_size: "utf8_first b = Some (sz, lo, hi) \<Longrightarrow> sz = 2 \<or> sz = 3 \<or> sz = 4"
  unfolding utf8_first_def by (simp split: if_splits)

lemma width_Cons_None:
  "utf8_first (of_char s0) = None \<Longrightarrow> DecodeRuneInString_width (s0 # r) = 1"
  by (simp add: DecodeRuneInString_width_def)

lemma width_Cons_Some:
  assumes "utf8_first (of_char s0) = Some (sz, lo, hi)"
  shows "DecodeRuneInString_width (s0 # r) = 1 \<or>
         (DecodeRuneInString_width (s0 # r) = sz \<and> sz \<le> length (s0 # r))"
  using assms utf8_first_size[OF assms] unfolding DecodeRuneInString_width_def
  by (simp split: if_splits) linarith+

lemma width_bounds:
  assumes "s \<noteq> []"
  shows "1 \<le> DecodeRuneInString_width s \<and> DecodeRuneInString_width s \<le> length s"
proof -
  from assms obtain s0 r where s: "s = s0 # r" by (cases s) auto
  show ?thesis
  proof (cases "utf8_first (of_char s0)")
    case None
    then show ?thesis using s by (simp add: width_Cons_None)
  next
    case (Some x)
    obtain sz lo hi where x: "x = (sz, lo, hi)" by (cases x)
    from width_Cons_Some[of s0 sz lo hi r] utf8_first_size[of "of_char s0" sz lo hi] Some x s
    show ?thesis by auto
  qed
qed


section \<open>The invariant of the loop\<close>

text \<open>
  \<open>prefix_match p t i j ts sp\<close>: the first \<open>i\<close> characters of the pattern are the terms
  \<open>ts\<close>, and \<open>sp\<close> cuts the first \<open>j\<close> characters of the text into spans for them.
\<close>

definition prefix_match :: "string \<Rightarrow> string \<Rightarrow> nat \<Rightarrow> nat \<Rightarrow> pterm list \<Rightarrow> string list \<Rightarrow> bool" where
  "prefix_match p t i j ts sp \<longleftrightarrow>
     i \<le> length p \<and> j \<le> length t \<and> spec_parse (take i p) = Some ts \<and>
     list_all2 spec_span ts sp \<and> concat sp = take j t"

text \<open>The wildcard term that starts at position \<open>q\<close>, and the position after it.\<close>

definition wild_at :: "string \<Rightarrow> nat \<Rightarrow> (pterm \<times> nat) option" where
  "wild_at p q =
     (if p ! q = CHR ''*'' then Some (Star, q + 1)
      else if p ! q = CHR ''{'' then
        (let i = IndexByte (drop (q + 1) p) CHR ''}'' in
         if i < 0 then None
         else Some (Named (take (nat i) (drop (q + 1) p)), q + 1 + nat i + 1))
      else None)"

text \<open>The characters of \<open>t\<close> from position \<open>a\<close> up to position \<open>b\<close>.\<close>

definition span_of :: "string \<Rightarrow> nat \<Rightarrow> nat \<Rightarrow> string" where
  "span_of t a b = take (b - a) (drop a t)"

text \<open>
  The retry point: the pattern before \<open>nextPx\<close> matches the text before \<open>j0\<close>, a wildcard
  starts at \<open>nextPx\<close>, and the text from \<open>j0\<close> to \<open>nextTx - 1\<close> has no \<open>/\<close>, so that the
  wildcard can take it. When the wildcard is a named term, \<open>key\<close>, \<open>nx\<close> and \<open>vx\<close>
  describe it. The last part relates the capture list to the captures of the pattern
  before \<open>nextPx\<close>; it is kept for capture-friendly patterns only (\<open>cf\<close>).
\<close>

definition retry_inv ::
  "string \<Rightarrow> string \<Rightarrow> Vars \<Rightarrow> bool \<Rightarrow> state \<Rightarrow> pterm list \<Rightarrow> string list \<Rightarrow> nat \<Rightarrow> pterm \<Rightarrow> nat \<Rightarrow> bool" where
  "retry_inv p t vs0 cf s ts0 sp0 j0 wt q' \<longleftrightarrow>
     prefix_match p t (nextPx s) j0 ts0 sp0 \<and> nextPx s < length p \<and>
     wild_at p (nextPx s) = Some (wt, q') \<and>
     j0 < nextTx s \<and> nextTx s \<le> length t + 1 \<and> CHR ''/'' \<notin> set (span_of t j0 (nextTx s - 1)) \<and>
     (wt = Star \<longrightarrow> nx s \<le> nextPx s) \<and>
     (\<forall>k. wt = Named k \<longrightarrow> key s = k \<and> nx s + 1 = q' \<and> vx s = j0) \<and>
     (cf \<longrightarrow> (wt = Star \<longrightarrow> vars s = set_all vs0 (spec_captures ts0 sp0)) \<and>
        (\<forall>k v. wt = Named k \<longrightarrow>
           Vars_Set (vars s) k v = Vars_Set (set_all vs0 (spec_captures ts0 sp0)) k v))"

definition has_retry :: "string \<Rightarrow> string \<Rightarrow> Vars \<Rightarrow> bool \<Rightarrow> state \<Rightarrow> bool" where
  "has_retry p t vs0 cf s \<longleftrightarrow> (\<exists>ts0 sp0 j0 wt q'. retry_inv p t vs0 cf s ts0 sp0 j0 wt q')"

text \<open>
  The three kinds of state of the loop: just resumed at the retry point; just past the
  wildcard of the retry point; and past a literal or a \<open>?\<close>, with a decomposition of
  its own.
\<close>

definition at_resume :: "string \<Rightarrow> state \<Rightarrow> bool" where
  "at_resume t s \<longleftrightarrow>
     px s = nextPx s \<and> tx s = nextTx s \<and> 0 < tx s \<and> t ! (tx s - 1) \<noteq> CHR ''/''"

definition after_wild :: "string \<Rightarrow> string \<Rightarrow> Vars \<Rightarrow> bool \<Rightarrow> state \<Rightarrow> bool" where
  "after_wild p t vs0 cf s \<longleftrightarrow>
     (\<exists>ts0 sp0 j0 wt q'. retry_inv p t vs0 cf s ts0 sp0 j0 wt q' \<and> px s = q' \<and>
        nextTx s = tx s + 1)"

definition plain_state :: "string \<Rightarrow> string \<Rightarrow> Vars \<Rightarrow> bool \<Rightarrow> state \<Rightarrow> bool" where
  "plain_state p t vs0 cf s \<longleftrightarrow>
     (\<exists>ts sp. prefix_match p t (px s) (tx s) ts sp \<and> nx s \<le> px s \<and>
        (\<forall>k. ts \<noteq> [] \<longrightarrow> last ts \<noteq> Named k) \<and>
        (cf \<longrightarrow> vars s = set_all vs0 (spec_captures ts sp) \<and>
           (px s = 0 \<or> p ! (px s - 1) \<noteq> CHR ''}'')))"

definition Match_inv :: "string \<Rightarrow> string \<Rightarrow> Vars \<Rightarrow> bool \<Rightarrow> state \<Rightarrow> bool" where
  "Match_inv p t vs0 cf s \<longleftrightarrow>
     px s \<le> length p \<and> tx s \<le> length t \<and> (0 < nextTx s \<longrightarrow> has_retry p t vs0 cf s) \<and>
     (at_resume t s \<or> after_wild p t vs0 cf s \<or> plain_state p t vs0 cf s)"

definition pending :: "string \<Rightarrow> string \<Rightarrow> Vars \<Rightarrow> bool \<Rightarrow> state \<Rightarrow> bool" where
  "pending p t vs0 cf s \<longleftrightarrow>
     (\<exists>ts0 sp0 j0 k. retry_inv p t vs0 cf s ts0 sp0 j0 (Named k) (px s) \<and>
        nextTx s = tx s + 1)"

text \<open>
  What keeps the index and slice expressions in range: the start of the open capture is
  not beyond the text position nor beyond the retry point's, and as long as no wildcard
  has been met, the pattern does not start with one once \<open>px\<close> has moved.
\<close>

definition cursors_ok :: "string \<Rightarrow> state \<Rightarrow> bool" where
  "cursors_ok p s \<longleftrightarrow>
     vx s \<le> tx s \<and> (0 < nextTx s \<longrightarrow> vx s \<le> nextTx s) \<and>
     (nextTx s = 0 \<longrightarrow> nextPx s = 0 \<and> (0 < px s \<longrightarrow> p ! 0 \<noteq> CHR ''*'' \<and> p ! 0 \<noteq> CHR ''{''))"

section \<open>The capture list\<close>

lemma Vars_Get_Set: "Vars_Get (Vars_Set vs k v) k = v"
  by (induction vs) auto

section \<open>Unfolding the loop\<close>

lemma Match_loop_exit:
  "\<not> (px s < length p \<or> tx s < length t) \<Longrightarrow> Match_loop p t s = finish p t s"
  by (subst Match_loop.simps) simp

lemma Match_loop_panic:
  "px s < length p \<or> tx s < length t \<Longrightarrow> Match_body p t s = Inl e \<Longrightarrow> Match_loop p t s = Inl e"
  by (subst Match_loop.simps) simp

lemma Match_loop_continue:
  "px s < length p \<or> tx s < length t \<Longrightarrow> Match_body p t s = Inr (Continue s')
   \<Longrightarrow> Match_loop p t s = Match_loop p t s'"
  by (subst Match_loop.simps) simp

lemma Match_loop_return:
  "px s < length p \<or> tx s < length t \<Longrightarrow> Match_body p t s = Inr (Return b vs)
   \<Longrightarrow> Match_loop p t s = Inr (b, vs)"
  by (subst Match_loop.simps) simp

text \<open>
  An invariant of the loop carries over to every result: it is enough that the body
  keeps it, and that the two ways out (the \<open>return false\<close> in the body and the code
  after the loop) establish the property from it.
\<close>

lemma Match_loop_invariant:
  assumes res: "Match_loop p t s = Inr r"
    and inv: "I s"
    and step: "\<And>s s'. I s \<Longrightarrow> px s < length p \<or> tx s < length t \<Longrightarrow>
                 Match_body p t s = Inr (Continue s') \<Longrightarrow> I s'"
    and ret: "\<And>s b vs. I s \<Longrightarrow> px s < length p \<or> tx s < length t \<Longrightarrow>
                 Match_body p t s = Inr (Return b vs) \<Longrightarrow> Q (b, vs)"
    and fin: "\<And>s r. I s \<Longrightarrow> \<not> (px s < length p \<or> tx s < length t) \<Longrightarrow>
                 finish p t s = Inr r \<Longrightarrow> Q r"
  shows "Q r"
  using assms
proof (induction p t s rule: Match_loop.induct)
  case (1 p t s)
  note res = "1.prems"(1) and inv = "1.prems"(2) and step = "1.prems"(3)
    and ret = "1.prems"(4) and fin = "1.prems"(5)
  show ?case
  proof (cases "px s < length p \<or> tx s < length t")
    case False
    with res have "finish p t s = Inr r"
      by (simp add: Match_loop_exit)
    with False inv show ?thesis
      using fin by blast
  next
    case True
    show ?thesis
    proof (cases "Match_body p t s")
      case (Inl e)
      with True res show ?thesis
        by (simp add: Match_loop_panic)
    next
      case (Inr x)
      show ?thesis
      proof (cases x)
        case (Continue s')
        with True Inr res have "Match_loop p t s' = Inr r"
          by (simp add: Match_loop_continue)
        moreover have "I s'"
          using step inv True Inr Continue by blast
        ultimately show ?thesis
          using "1.IH"[OF True Inr Continue] step ret fin by blast
      next
        case (Return b vs)
        with True Inr res have "r = (b, vs)"
          by (simp add: Match_loop_return)
        with Inr Return True inv show ?thesis
          using ret by blast
      qed
    qed
  qed
qed

section \<open>The ways out of the loop\<close>

lemma retry_Return: "retry p t s = Inr (Return b vs) \<Longrightarrow> b = False \<and> vs = []"
  unfolding retry_def Let_def Vars_Reset_def by (simp split: if_splits)

lemma wildcard_no_Return: "wildcard p s c \<noteq> Inr (Return b vs)"
  unfolding wildcard_def Let_def by (simp split: if_splits)

lemma literal_no_Return: "literal p t s \<noteq> Inr (Return b vs)"
  unfolding literal_def Let_def by (simp split: if_splits sum.splits)

lemma body_Return: "Match_body p t s = Inr (Return b vs) \<Longrightarrow> b = False \<and> vs = []"
  unfolding Match_body_def Let_def
  by (auto split: if_splits dest: retry_Return simp: wildcard_no_Return literal_no_Return)

lemma finish_True: "finish p t s = Inr (b, vs) \<Longrightarrow> b"
  unfolding finish_def by (simp split: if_splits sum.splits)

section \<open>Two runs that differ in the capture list only\<close>

lemma retry_ctl: "ctl_step (retry p t (s\<lparr>vars := v\<rparr>)) = ctl_step (retry p t s)"
  unfolding retry_def Let_def ctl_step_def by simp

lemma wildcard_ctl: "ctl_step (wildcard p (s\<lparr>vars := v\<rparr>) c) = ctl_step (wildcard p s c)"
  unfolding wildcard_def Let_def ctl_step_def by simp

lemma literal_ctl: "ctl_step (literal p t (s\<lparr>vars := v\<rparr>)) = ctl_step (literal p t s)"
  unfolding literal_def Let_def ctl_step_def slice_def by simp

lemma body_ctl: "ctl_step (Match_body p t (s\<lparr>vars := v\<rparr>)) = ctl_step (Match_body p t s)"
  unfolding Match_body_def Let_def
  by (simp add: retry_ctl wildcard_ctl literal_ctl) (simp add: ctl_step_def)

lemma finish_ctl: "verdict (finish p t (s\<lparr>vars := v\<rparr>)) = verdict (finish p t s)"
  unfolding finish_def slice_def verdict_def by simp

lemma loop_ctl: "verdict (Match_loop p t (s\<lparr>vars := v\<rparr>)) = verdict (Match_loop p t s)"
proof (induction p t s arbitrary: v rule: Match_loop.induct)
  case (1 p t s)
  let ?s2 = "s\<lparr>vars := v\<rparr>"
  show ?case
  proof (cases "px s < length p \<or> tx s < length t")
    case False
    then have False2: "\<not> (px ?s2 < length p \<or> tx ?s2 < length t)" by simp
    show ?thesis
      unfolding Match_loop_exit[OF False] Match_loop_exit[OF False2] by (rule finish_ctl)
  next
    case True
    then have True2: "px ?s2 < length p \<or> tx ?s2 < length t" by simp
    note b = body_ctl[where p=p and t=t and s=s and v=v]
    show ?thesis
    proof (cases "Match_body p t s")
      case (Inl e)
      with b have Inl2: "Match_body p t ?s2 = Inl e"
        by (auto simp: ctl_step_def split: sum.splits step.splits)
      show ?thesis
        unfolding Match_loop_panic[OF True Inl] Match_loop_panic[OF True2 Inl2] by simp
    next
      case (Inr x)
      show ?thesis
      proof (cases x)
        case (Continue s')
        with b Inr obtain v' where b2: "Match_body p t ?s2 = Inr (Continue (s'\<lparr>vars := v'\<rparr>))"
          by (auto simp: ctl_step_def split: sum.splits step.splits)
            (metis state.surjective state.update_convs(8))
        have "verdict (Match_loop p t (s'\<lparr>vars := v'\<rparr>)) = verdict (Match_loop p t s')"
          by (rule "1.IH"[OF True Inr Continue])
        then show ?thesis
          using Match_loop_continue[OF True2 b2] Match_loop_continue[OF True] Inr Continue by simp
      next
        case (Return b' vs')
        with b Inr obtain vs2 where b2: "Match_body p t ?s2 = Inr (Return b' vs2)"
          by (auto simp: ctl_step_def split: sum.splits step.splits)
        show ?thesis
          using Match_loop_return[OF True2 b2] Match_loop_return[OF True] Inr Return
          by (simp add: verdict_def)
      qed
    qed
  qed
qed

section \<open>Termination of the loop\<close>

lemma wf_Match_iter: "wf (Match_iter p t)"
proof (rule wf_subset)
  show "wf (inv_image Match_order (\<lambda>s. (p, t, s)))"
    by (simp add: Match_order_def)
  show "Match_iter p t \<subseteq> inv_image Match_order (\<lambda>s. (p, t, s))"
    unfolding Match_iter_def inv_image_def using body_decreases by auto
qed

lemma resume_advances:
  assumes r: "retry p t s = Inr (Continue s1)"
  shows "nextTx s \<le> length t \<and>
     (Match_body p t s1 = Inl SliceBoundsOutOfRange \<or>
      (\<exists>s2. Match_body p t s1 = Inr (Continue s2) \<and> nextTx s2 = nextTx s + 1))"
proof -
  note f = retry_Continue[OF r]
  from f have s1: "px s1 = nextPx s" "tx s1 = nextTx s" by simp_all
  from f s1 have b: "Match_body p t s1 = wildcard p s1 (p ! px s1)"
    unfolding Match_body_def Let_def by auto
  have "wildcard p s1 c = Inl SliceBoundsOutOfRange \<or>
      (\<exists>s2. wildcard p s1 c = Inr (Continue s2) \<and> nextTx s2 = tx s1 + 1)" for c
    unfolding wildcard_def Let_def by simp
  with b s1 f show ?thesis by metis
qed

section \<open>The claims about \<open>Match\<close> that need no reference semantics\<close>

text \<open>
  C2. \<open>Match\<close> is claimed never to crash, and an unterminated \<open>{name\<close> to be handled by
  taking the rest of the pattern as the name. The code does not check the result of
  \<open>IndexByte\<close>: when there is no \<open>}\<close> it is \<open>-1\<close>, \<open>nx\<close> becomes \<open>px - 1\<close>, and the
  slice expression \<open>pattern[px:nx]\<close> panics. For the pattern \<open>{name\<close> this happens in the
  first pass of the loop, whatever the text and the capture list are.
\<close>

theorem Match_unterminated_opener_panics:
  "Match ''{name'' t vs = Inl SliceBoundsOutOfRange"
  unfolding Match_def by (subst Match_loop.simps) (simp add: Match_body_def wildcard_def)

text \<open>
  C3. Whenever \<open>Match\<close> returns false, the capture list is empty afterwards, whatever it
  held before the call and whatever was bound on the way.
\<close>

theorem Match_false_resets_vars:
  assumes "Match p t vs = Inr (False, vs')"
  shows "vs' = []"
proof -
  from assms have "Match_loop p t
      \<lparr>key = [], nx = 0, vx = 0, px = 0, tx = 0, nextPx = 0, nextTx = 0, vars = vs\<rparr>
      = Inr (False, vs')"
    by (simp add: Match_def)
  then have "fst (False, vs') \<or> snd (False, vs') = []"
  proof (rule Match_loop_invariant[where I = "\<lambda>s. True" and Q = "\<lambda>r. fst r \<or> snd r = []"])
    fix s b vs
    assume "Match_body p t s = Inr (Return b vs)"
    then show "fst (b, vs) \<or> snd (b, vs) = []"
      using body_Return by fastforce
  next
    fix s r
    assume "finish p t s = Inr r"
    then show "fst r \<or> snd r = []"
      using finish_True by (cases r) auto
  qed simp_all
  then show ?thesis by simp
qed

theorem Match_false_resets_vars_witness:
  "Match ''a{1}bc'' ''axbd'' [(''k'', ''v'')] = Inr (False, []) \<and> ([] :: Vars) = []"
  using Match_false_resets_vars[of "''a{1}bc''" "''axbd''" "[(''k'', ''v'')]" "[]"]
  by code_simp

text \<open>
  C4. The empty pattern is claimed to match the empty text and to return false on every
  other text. On the empty text \<open>Match\<close> returns true and leaves the capture list alone.
  On a text that is not empty the loop is entered with the pattern exhausted, the retry
  point is still \<open>nextPx = nextTx = 0\<close>, the test \<open>nextTx <= len(text)\<close> passes, and
  \<open>pattern[px]\<close> indexes the empty pattern: the call panics instead of returning false.
\<close>

theorem Match_empty_pattern:
  "Match [] [] vs = Inr (True, vs) \<and> Match [] (c # cs) vs = Inl IndexOutOfRange"
proof
  show "Match [] [] vs = Inr (True, vs)"
    unfolding Match_def by (subst Match_loop.simps) (simp add: finish_def)
  show "Match [] (c # cs) vs = Inl IndexOutOfRange"
    unfolding Match_def by (subst Match_loop.simps) (simp add: Match_body_def retry_def)
qed

text \<open>
  C9. \<open>Match\<close> terminates on every pattern and text. The relation between a state in
  which the loop is entered and the state the body continues with is well-founded, so
  no run of the loop is infinite (it ends in a return or in a panic). The reason is the
  one the claim gives: a resume at the retry point is possible only while the saved
  text position \<open>nextTx\<close> is at most the length of the text, and the pass that follows
  the resume handles the wildcard again and saves \<open>nextTx + 1\<close>.
\<close>

theorem Match_terminates:
  "wf (Match_iter p t) \<and>
   (\<forall>s s1. retry p t s = Inr (Continue s1) \<longrightarrow>
      nextTx s \<le> length t \<and>
      (Match_body p t s1 = Inl SliceBoundsOutOfRange \<or>
       (\<exists>s2. Match_body p t s1 = Inr (Continue s2) \<and> nextTx s2 = nextTx s + 1)))"
  using wf_Match_iter resume_advances by blast

theorem Match_terminates_witness:
  "retry ''*b'' ''ab''
     \<lparr>key = [], nx = 0, vx = 0, px = 1, tx = 0, nextPx = 0, nextTx = 1, vars = []\<rparr>
   = Inr (Continue
     \<lparr>key = [], nx = 0, vx = 0, px = 0, tx = 1, nextPx = 0, nextTx = 1, vars = []\<rparr>) \<and>
   (\<exists>s2. Match_body ''*b'' ''ab''
       \<lparr>key = [], nx = 0, vx = 0, px = 0, tx = 1, nextPx = 0, nextTx = 1, vars = []\<rparr>
       = Inr (Continue s2) \<and> nextTx s2 = 2)"
proof -
  let ?s = "\<lparr>key = [], nx = 0, vx = 0, px = 1, tx = 0, nextPx = 0, nextTx = 1, vars = []\<rparr>"
  let ?s1 = "\<lparr>key = [], nx = 0, vx = 0, px = 0, tx = 1, nextPx = 0, nextTx = 1, vars = []\<rparr>"
  have r: "retry ''*b'' ''ab'' ?s = Inr (Continue ?s1)"
    by (simp add: retry_def)
  have np: "Match_body ''*b'' ''ab'' ?s1 \<noteq> Inl SliceBoundsOutOfRange"
    by (simp add: Match_body_def wildcard_def)
  from Match_terminates[of "''*b''" "''ab''"] r np
  have "\<exists>s2. Match_body ''*b'' ''ab'' ?s1 = Inr (Continue s2) \<and> nextTx s2 = nextTx ?s + 1"
    by blast
  then have "\<exists>s2. Match_body ''*b'' ''ab'' ?s1 = Inr (Continue s2) \<and> nextTx s2 = 2"
    by (simp add: numeral_2_eq_2)
  with r show ?thesis by blast
qed

text \<open>
  C10. The outcome of \<open>Match\<close> apart from the capture list (the boolean, or the panic)
  does not depend on what the capture list holds when \<open>Match\<close> is called.
\<close>

theorem Match_verdict_independent_of_vars:
  "verdict (Match p t v1) = verdict (Match p t v2)"
proof -
  let ?s = "\<lparr>key = [], nx = 0, vx = 0, px = 0, tx = 0, nextPx = 0, nextTx = 0, vars = v2\<rparr>"
  have "verdict (Match_loop p t (?s\<lparr>vars := v1\<rparr>)) = verdict (Match_loop p t ?s)"
    by (rule loop_ctl)
  then show ?thesis by (simp add: Match_def)
qed

section \<open>The method dispatcher\<close>

lemma foldl_allow:
  "foldl (\<lambda>allow k. if up k \<noteq> MethodOptions then allow @ [up k] else allow) acc ks
   = acc @ filter (\<lambda>m. m \<noteq> MethodOptions) (map up ks)"
  by (induction ks arbitrary: acc) auto

lemma allow_list_sorted: "sorted (allow_list up ks)"
  by (simp add: allow_list_def)

lemma allow_list_mset:
  "mset (allow_list up ks) =
     add_mset MethodOptions (filter_mset (\<lambda>m. m \<noteq> MethodOptions) (image_mset up (mset ks)))"
  by (simp add: allow_list_def foldl_allow)

lemma allow_list_options_once: "count (mset (allow_list up ks)) MethodOptions = 1"
  by (simp add: allow_list_mset)

lemma allow_list_perm:
  assumes "mset ks = mset ks'"
  shows "allow_list up ks = allow_list up ks'"
proof -
  have "mset (allow_list up ks) = mset (allow_list up ks')"
    by (simp add: allow_list_mset assms)
  then show ?thesis
    using allow_list_sorted properties_for_sort by metis
qed

lemma enum_mset:
  assumes "distinct ks" "set ks = dom route"
  shows "mset ks = mset_set (dom route)"
  using assms mset_set_set by metis


text \<open>
  C8. \<open>ServeHTTP\<close> looks the upper-cased request method up. When a handler is
  registered for it, that handler is called and nothing else happens. When none is, the
  \<open>Allow\<close> header is set to the elements of a list joined by \<open>", "\<close>; the list is
  sorted, it holds \<open>OPTIONS\<close> exactly once and, besides, the upper-case form of each
  registered method that is not \<open>OPTIONS\<close>; and status 405 is written exactly when
  the upper-cased request method is not \<open>OPTIONS\<close>. This holds for both copies of the
  function and for every order in which the map's keys are visited.
\<close>

theorem ServeHTTP_allow_and_405:
  assumes "distinct ks" and "set ks = dom route"
  shows "(\<forall>h. route (up (Method req)) = Some h \<longrightarrow>
            ServeHTTP up route ks req = [Handler_ServeHTTP h req] \<and>
            ServeHTTP_part_002 up route ks req = [Handler_ServeHTTP h req]) \<and>
         (route (up (Method req)) = None \<longrightarrow>
            (\<exists>allow. sorted allow \<and>
               mset allow = add_mset ''OPTIONS''
                 (filter_mset (\<lambda>m. m \<noteq> ''OPTIONS'') (image_mset up (mset_set (dom route)))) \<and>
               count (mset allow) ''OPTIONS'' = 1 \<and>
               ServeHTTP up route ks req =
                 Header_Set ''Allow'' (Join allow '', '') #
                 (if up (Method req) = ''OPTIONS'' then []
                  else [http_Error ''405 method not allowed'' 405]) \<and>
               ServeHTTP_part_002 up route ks req =
                 Header_Set ''Allow'' (Join allow '', '') #
                 (if up (Method req) = ''OPTIONS'' then [] else [WriteHeader 405])))"
proof (intro conjI allI impI)
  fix h
  assume "route (up (Method req)) = Some h"
  then show "ServeHTTP up route ks req = [Handler_ServeHTTP h req]"
    and "ServeHTTP_part_002 up route ks req = [Handler_ServeHTTP h req]"
    by (simp_all add: ServeHTTP_def ServeHTTP_part_002_def)
next
  assume none: "route (up (Method req)) = None"
  let ?allow = "allow_list up ks"
  have "sorted ?allow"
    by (rule allow_list_sorted)
  moreover have "mset ?allow = add_mset ''OPTIONS''
      (filter_mset (\<lambda>m. m \<noteq> ''OPTIONS'') (image_mset up (mset_set (dom route))))"
    using allow_list_mset[of up ks] enum_mset[OF assms] by (simp add: MethodOptions_def)
  moreover have "count (mset ?allow) ''OPTIONS'' = 1"
    using allow_list_options_once[of up ks] by (simp add: MethodOptions_def)
  moreover have "ServeHTTP up route ks req =
      Header_Set ''Allow'' (Join ?allow '', '') #
      (if up (Method req) = ''OPTIONS'' then [] else [http_Error ''405 method not allowed'' 405])"
    using none by (simp add: ServeHTTP_def MethodOptions_def StatusMethodNotAllowed_def)
  moreover have "ServeHTTP_part_002 up route ks req =
      Header_Set ''Allow'' (Join ?allow '', '') #
      (if up (Method req) = ''OPTIONS'' then [] else [WriteHeader 405])"
    using none by (simp add: ServeHTTP_part_002_def MethodOptions_def StatusMethodNotAllowed_def)
  ultimately show "\<exists>allow. sorted allow \<and>
               mset allow = add_mset ''OPTIONS''
                 (filter_mset (\<lambda>m. m \<noteq> ''OPTIONS'') (image_mset up (mset_set (dom route)))) \<and>
               count (mset allow) ''OPTIONS'' = 1 \<and>
               ServeHTTP up route ks req =
                 Header_Set ''Allow'' (Join allow '', '') #
                 (if up (Method req) = ''OPTIONS'' then []
                  else [http_Error ''405 method not allowed'' 405]) \<and>
               ServeHTTP_part_002 up route ks req =
                 Header_Set ''Allow'' (Join allow '', '') #
                 (if up (Method req) = ''OPTIONS'' then [] else [WriteHeader 405])"
    by blast
qed

theorem ServeHTTP_allow_and_405_witness:
  "distinct [''PUT'', ''GET'', ''PATCH'', ''POST''] \<and>
   set [''PUT'', ''GET'', ''PATCH'', ''POST''] = dom example_route \<and>
   example_route (ToUpper_ascii (Method \<lparr>Method = ''options''\<rparr>)) = None \<and>
   example_route (ToUpper_ascii (Method \<lparr>Method = ''delete''\<rparr>)) = None \<and>
   example_route (ToUpper_ascii (Method \<lparr>Method = ''get''\<rparr>)) = Some 1 \<and>
   ServeHTTP ToUpper_ascii example_route [''PUT'', ''GET'', ''PATCH'', ''POST'']
     \<lparr>Method = ''options''\<rparr> = [Header_Set ''Allow'' ''GET, OPTIONS, PATCH, POST, PUT''] \<and>
   ServeHTTP ToUpper_ascii example_route [''PUT'', ''GET'', ''PATCH'', ''POST'']
     \<lparr>Method = ''delete''\<rparr> =
     [Header_Set ''Allow'' ''GET, OPTIONS, PATCH, POST, PUT'',
      http_Error ''405 method not allowed'' 405] \<and>
   ServeHTTP ToUpper_ascii example_route [''PUT'', ''GET'', ''PATCH'', ''POST'']
     \<lparr>Method = ''get''\<rparr> = [Handler_ServeHTTP 1 \<lparr>Method = ''get''\<rparr>]"
proof -
  let ?ks = "[''PUT'', ''GET'', ''PATCH'', ''POST'']"
  have d: "distinct ?ks" by simp
  have e: "set ?ks = dom example_route" by (auto simp: example_route_def)
  have u: "ToUpper_ascii ''options'' = ''OPTIONS''" "ToUpper_ascii ''delete'' = ''DELETE''"
    "ToUpper_ascii ''get'' = ''GET''"
    by code_simp+
  have n: "example_route ''OPTIONS'' = None" "example_route ''DELETE'' = None"
    "example_route ''GET'' = Some 1"
    by (simp_all add: example_route_def)
  have a: "Join (allow_list ToUpper_ascii ?ks) '', '' = ''GET, OPTIONS, PATCH, POST, PUT''"
    by code_simp
  note t = ServeHTTP_allow_and_405[OF d e, of ToUpper_ascii]
  have 3: "ServeHTTP ToUpper_ascii example_route ?ks \<lparr>Method = ''get''\<rparr>
      = [Handler_ServeHTTP 1 \<lparr>Method = ''get''\<rparr>]"
    using t[of "\<lparr>Method = ''get''\<rparr>"] u n by simp
  have 1: "ServeHTTP ToUpper_ascii example_route ?ks \<lparr>Method = ''options''\<rparr>
      = [Header_Set ''Allow'' ''GET, OPTIONS, PATCH, POST, PUT'']"
    using u n a by (simp add: ServeHTTP_def MethodOptions_def)
  have 2: "ServeHTTP ToUpper_ascii example_route ?ks \<lparr>Method = ''delete''\<rparr>
      = [Header_Set ''Allow'' ''GET, OPTIONS, PATCH, POST, PUT'',
         http_Error ''405 method not allowed'' 405]"
    using u n a by (simp add: ServeHTTP_def MethodOptions_def StatusMethodNotAllowed_def)
  from d e u n 1 2 3 show ?thesis by simp
qed

section \<open>Parsing a pattern piece by piece\<close>

lemma spec_parse_append:
  "spec_parse xs = Some a \<Longrightarrow> spec_parse (xs @ ys) = map_option ((@) a) (spec_parse ys)"
proof (induction xs arbitrary: a rule: spec_parse.induct)
  case 1
  then show ?case by (simp add: option.map_ident)
next
  case (2 c cs)
  show ?case
  proof (cases "c = CHR ''{''")
    case True
    with "2.prems" have mem: "CHR ''}'' \<in> set cs"
      by (simp split: if_splits)
    let ?P = "\<lambda>x. x \<noteq> CHR ''}''"
    from mem have tw: "takeWhile ?P (cs @ ys) = takeWhile ?P cs"
      by (simp add: takeWhile_append1[where x = "CHR ''}''"])
    from mem have dw: "dropWhile ?P (cs @ ys) = dropWhile ?P cs @ ys"
      by (simp add: dropWhile_append1[where x = "CHR ''}''"])
    from mem have ne: "dropWhile ?P cs \<noteq> []"
      by auto
    from "2.prems" True mem obtain b where
      b: "spec_parse (tl (dropWhile ?P cs)) = Some b" and a: "a = Named (takeWhile ?P cs) # b"
      by auto
    have "spec_parse (tl (dropWhile ?P cs) @ ys) = map_option ((@) b) (spec_parse ys)"
      using "2.IH"(3) True mem b by simp
    then show ?thesis
      using True mem tw dw ne a by (cases "spec_parse ys") simp_all
  next
    case False
    then show ?thesis
      using "2.prems" "2.IH"(1,2,4)
      by (cases "spec_parse ys") (auto split: if_splits)
  qed
qed

lemma IndexByte_ge: "- 1 \<le> IndexByte xs c"
  by (induction xs) (auto simp: Let_def)

lemma IndexByte_neg: "IndexByte xs c < 0 \<longleftrightarrow> c \<notin> set xs"
  by (induction xs) (auto simp: Let_def)

lemma IndexByte_nat:
  "IndexByte xs c = int n \<Longrightarrow> n < length xs \<and> xs ! n = c \<and> c \<notin> set (take n xs)"
proof (induction xs arbitrary: n)
  case Nil
  then show ?case by simp
next
  case (Cons x xs)
  show ?case
  proof (cases "x = c")
    case True
    with Cons.prems show ?thesis by simp
  next
    case False
    with Cons.prems obtain m where m: "IndexByte xs c = int m" "n = Suc m"
      by (cases n) (auto simp: Let_def split: if_splits)
    with Cons.IH[of m] False show ?thesis by simp
  qed
qed

lemma IndexByte_split:
  assumes "IndexByte xs c = int n"
  shows "xs = take n xs @ c # drop (Suc n) xs" and "c \<notin> set (take n xs)"
  using IndexByte_nat[OF assms] id_take_nth_drop[of n xs] by auto

lemma spec_parse_Lit:
  "c \<noteq> CHR ''*'' \<Longrightarrow> c \<noteq> CHR ''?'' \<Longrightarrow> c \<noteq> CHR ''{'' \<Longrightarrow> spec_parse [c] = Some [Lit c]"
  by simp

lemma spec_parse_Named:
  "CHR ''}'' \<notin> set k \<Longrightarrow> spec_parse (CHR ''{'' # k @ [CHR ''}'']) = Some [Named k]"
proof -
  assume k: "CHR ''}'' \<notin> set k"
  let ?P = "\<lambda>x. x \<noteq> CHR ''}''"
  from k have "takeWhile ?P (k @ [CHR ''}'']) = k"
    by (induction k) auto
  moreover from k have "dropWhile ?P (k @ [CHR ''}'']) = [CHR ''}'']"
    by (induction k) auto
  ultimately show ?thesis by simp
qed

lemma spec_parse_snoc:
  assumes "spec_parse xs = Some a" and "spec_parse ys = Some b"
  shows "spec_parse (xs @ ys) = Some (a @ b)"
  using spec_parse_append[OF assms(1), of ys] assms(2) by simp

section \<open>The UTF-8 decoder\<close>

lemma width_take:
  "DecodeRuneInString_width (take (DecodeRuneInString_width s) s) = DecodeRuneInString_width s"
proof (cases s)
  case Nil
  then show ?thesis by (simp add: DecodeRuneInString_width_def)
next
  case (Cons s0 r)
  show ?thesis
  proof (cases "utf8_first (of_char s0)")
    case None
    with Cons show ?thesis by (simp add: width_Cons_None)
  next
    case (Some x)
    obtain sz lo hi where x: "x = (sz, lo, hi)" by (cases x)
    note f = Some[unfolded x]
    note sz = utf8_first_size[OF f]
    let ?w = "DecodeRuneInString_width s"
    show ?thesis
    proof (cases "?w = 1")
      case True
      then have "take ?w s = [s0]" using Cons by simp
      moreover have "DecodeRuneInString_width [s0] = 1"
        using f sz by (auto simp: DecodeRuneInString_width_def)
      ultimately show ?thesis using True by simp
    next
      case False
      with width_Cons_Some[OF f, of r] Cons have wsz: "?w = sz" and len: "sz \<le> length s"
        by auto
      have "DecodeRuneInString_width (take sz s) = DecodeRuneInString_width s"
        using Cons f sz len False wsz unfolding DecodeRuneInString_width_def
        by (auto split: if_splits)
      with wsz show ?thesis by simp
    qed
  qed
qed

section \<open>Extending a decomposition by one term\<close>

lemma prefix_match_start: "prefix_match p t 0 0 [] []"
  by (simp add: prefix_match_def)

lemma prefix_match_Lit:
  assumes "prefix_match p t i j ts sp" "i < length p" "j < length t" "t ! j = p ! i"
    "p ! i \<noteq> CHR ''*''" "p ! i \<noteq> CHR ''?''" "p ! i \<noteq> CHR ''{''"
  shows "prefix_match p t (Suc i) (Suc j) (ts @ [Lit (p ! i)]) (sp @ [[p ! i]])"
proof -
  have "take (Suc i) p = take i p @ [p ! i]"
    using assms(2) by (simp add: take_Suc_conv_app_nth)
  moreover have "spec_parse [p ! i] = Some [Lit (p ! i)]"
    using assms(5-7) by simp
  ultimately have "spec_parse (take (Suc i) p) = Some (ts @ [Lit (p ! i)])"
    using assms(1) spec_parse_snoc unfolding prefix_match_def by metis
  moreover have "take (Suc j) t = take j t @ [p ! i]"
    using assms(3,4) by (simp add: take_Suc_conv_app_nth)
  ultimately show ?thesis
    using assms(1-3) unfolding prefix_match_def by (simp add: list_all2_appendI)
qed

lemma prefix_match_AnyOne:
  assumes "prefix_match p t i j ts sp" "i < length p" "j < length t" "p ! i = CHR ''?''"
    "t ! j \<noteq> CHR ''/''" "w = DecodeRuneInString_width (drop j t)"
  shows "prefix_match p t (Suc i) (j + w) (ts @ [AnyOne]) (sp @ [take w (drop j t)])"
proof -
  have "take (Suc i) p = take i p @ [p ! i]"
    using assms(2) by (simp add: take_Suc_conv_app_nth)
  moreover have "spec_parse [p ! i] = Some [AnyOne]"
    using assms(4) by simp
  ultimately have 1: "spec_parse (take (Suc i) p) = Some (ts @ [AnyOne])"
    using assms(1) spec_parse_snoc unfolding prefix_match_def by metis
  have ne: "drop j t \<noteq> []" using assms(3) by simp
  from width_bounds[OF ne] assms(6) have w: "1 \<le> w" "w \<le> length t - j" by simp_all
  have hd: "hd (take w (drop j t)) = t ! j"
    using w assms(3) by (simp add: hd_drop_conv_nth)
  have 2: "spec_span AnyOne (take w (drop j t))"
    using w hd assms(3,5,6) width_take[of "drop j t"] by auto
  have 3: "take (j + w) t = take j t @ take w (drop j t)"
    by (simp add: take_add)
  show ?thesis
    using assms(1-3) 1 2 3 w unfolding prefix_match_def by (simp add: list_all2_appendI)
qed

lemma wild_at_cases:
  assumes "wild_at p q = Some (wt, q')"
  shows "(p ! q = CHR ''*'' \<and> wt = Star \<and> q' = q + 1) \<or>
         (\<exists>n. p ! q = CHR ''{'' \<and> IndexByte (drop (q + 1) p) CHR ''}'' = int n \<and>
              wt = Named (take n (drop (q + 1) p)) \<and> q' = q + 1 + n + 1)"
proof (cases "p ! q = CHR ''*''")
  case True
  with assms show ?thesis by (simp add: wild_at_def)
next
  case False
  with assms have b: "p ! q = CHR ''{''"
    by (simp add: wild_at_def split: if_splits)
  let ?i = "IndexByte (drop (q + 1) p) CHR ''}''"
  from assms False b have i: "\<not> ?i < 0"
    by (simp add: wild_at_def Let_def split: if_splits)
  then obtain n where n: "?i = int n"
    using nat_0_le[of ?i] by (metis not_le not_less)
  with assms False b i have "wt = Named (take n (drop (q + 1) p))" "q' = q + 1 + n + 1"
    by (simp_all add: wild_at_def Let_def)
  with b n show ?thesis by blast
qed

lemma wild_at_Star:
  assumes "wild_at p q = Some (Star, q')"
  shows "p ! q = CHR ''*''" "q' = q + 1"
  using wild_at_cases[OF assms] by auto

lemma wild_at_Named:
  assumes "wild_at p q = Some (Named k, q')"
  shows "p ! q = CHR ''{''" "q' = q + length k + 2" "p ! (q' - 1) = CHR ''}''"
    "IndexByte (drop (q + 1) p) CHR ''}'' = int (length k)" "k = take (length k) (drop (q + 1) p)"
    "nat (IndexByte (drop (q + 1) p) CHR ''}'') = length k"
proof -
  from wild_at_cases[OF assms] obtain n where
    b: "p ! q = CHR ''{''" and n: "IndexByte (drop (q + 1) p) CHR ''}'' = int n"
    and k: "k = take n (drop (q + 1) p)" and q': "q' = q + 1 + n + 1"
    by auto
  note ib = IndexByte_nat[OF n]
  from ib k have len: "length k = n" by simp
  show "p ! q = CHR ''{''" by (rule b)
  show "q' = q + length k + 2" using q' len by simp
  from ib have "n < length p - Suc q" by simp
  then have lt: "Suc q + n < length p" by arith
  then have "drop (Suc q) p ! n = p ! (Suc q + n)" by (simp add: nth_drop)
  then show "p ! (q' - 1) = CHR ''}''" using ib q' by simp
  show "IndexByte (drop (q + 1) p) CHR ''}'' = int (length k)" using n len by simp
  then show "nat (IndexByte (drop (q + 1) p) CHR ''}'') = length k" by simp
  show "k = take (length k) (drop (q + 1) p)" using k len by simp
qed

lemma wild_at_kind:
  assumes "wild_at p q = Some (wt, q')"
  shows "wt = Star \<or> (\<exists>k. wt = Named k)"
  using wild_at_cases[OF assms] by auto

lemma wild_at_bounds:
  assumes "wild_at p q = Some (wt, q')" "q < length p"
  shows "q < q'" "q' \<le> length p"
proof -
  from wild_at_cases[OF assms(1)] show "q < q'" by auto
  from wild_at_cases[OF assms(1)] show "q' \<le> length p"
  proof
    assume "p ! q = CHR ''*'' \<and> wt = Star \<and> q' = q + 1"
    then show ?thesis using assms(2) by simp
  next
    assume "\<exists>n. p ! q = CHR ''{'' \<and> IndexByte (drop (q + 1) p) CHR ''}'' = int n \<and>
              wt = Named (take n (drop (q + 1) p)) \<and> q' = q + 1 + n + 1"
    then obtain n where n: "IndexByte (drop (q + 1) p) CHR ''}'' = int n" "q' = q + 1 + n + 1"
      by blast
    from IndexByte_nat[OF n(1)] have "n < length p - Suc q" by simp
    with n(2) show ?thesis by arith
  qed
qed

lemma wild_at_parse:
  assumes "wild_at p q = Some (wt, q')" "q < length p"
  shows "spec_parse (take (q' - q) (drop q p)) = Some [wt]"
  using wild_at_cases[OF assms(1)]
proof
  assume a: "p ! q = CHR ''*'' \<and> wt = Star \<and> q' = q + 1"
  have "take 1 (drop q p) = [p ! q]"
    using assms(2) by (simp add: take_Suc_conv_app_nth)
  with a show ?thesis by simp
next
  assume "\<exists>n. p ! q = CHR ''{'' \<and> IndexByte (drop (q + 1) p) CHR ''}'' = int n \<and>
            wt = Named (take n (drop (q + 1) p)) \<and> q' = q + 1 + n + 1"
  then obtain n where b: "p ! q = CHR ''{''" and n: "IndexByte (drop (q + 1) p) CHR ''}'' = int n"
    and wt: "wt = Named (take n (drop (q + 1) p))" and q': "q' = q + 1 + n + 1"
    by blast
  let ?r = "drop (q + 1) p"
  note ib = IndexByte_nat[OF n]
  have dq: "drop q p = CHR ''{'' # ?r"
    using assms(2) b Cons_nth_drop_Suc[of q p] by simp
  have "take (Suc n) ?r = take n ?r @ [CHR ''}'']"
    using ib by (simp add: take_Suc_conv_app_nth)
  then have tk: "take (n + 2) (drop q p) = CHR ''{'' # take n ?r @ [CHR ''}'']"
    using dq by simp
  have "q' - q = n + 2" using q' by simp
  then show ?thesis
    using tk wt ib spec_parse_Named[of "take n ?r"] by simp
qed

lemma prefix_match_wild:
  assumes "prefix_match p t q j0 ts0 sp0" "q < length p" "wild_at p q = Some (wt, q')"
    "j0 \<le> j" "j \<le> length t" "CHR ''/'' \<notin> set (take (j - j0) (drop j0 t))"
  shows "prefix_match p t q' j (ts0 @ [wt]) (sp0 @ [take (j - j0) (drop j0 t)])"
proof -
  note w = wild_at_bounds[OF assms(3,2)]
  have "take q' p = take q p @ take (q' - q) (drop q p)"
    using w(1) take_add[of q "q' - q" p] by simp
  then have 1: "spec_parse (take q' p) = Some (ts0 @ [wt])"
    using assms(1) wild_at_parse[OF assms(3,2)] spec_parse_snoc unfolding prefix_match_def by metis
  have 2: "spec_span wt (take (j - j0) (drop j0 t))"
    using wild_at_kind[OF assms(3)] assms(6) by auto
  have 3: "take j t = take j0 t @ take (j - j0) (drop j0 t)"
    using assms(4) take_add[of j0 "j - j0" t] by simp
  show ?thesis
    using assms(1,5) 1 2 3 w(2) unfolding prefix_match_def by (simp add: list_all2_appendI)
qed

section \<open>Spans, captures and capture-friendly patterns\<close>

lemma slice_sub: "a \<le> b \<Longrightarrow> b \<le> length t \<Longrightarrow> slice t a b = Inr (span_of t a b)"
  by (simp add: slice_def span_of_def)

lemma span_of_empty: "span_of t a a = []"
  by (simp add: span_of_def)

lemma span_of_Suc: "a \<le> b \<Longrightarrow> b < length t \<Longrightarrow> span_of t a (Suc b) = span_of t a b @ [t ! b]"
proof -
  assume ab: "a \<le> b" and b: "b < length t"
  have "Suc b - a = Suc (b - a)" using ab by simp
  moreover have "b - a < length (drop a t)" using ab b by simp
  moreover have "drop a t ! (b - a) = t ! b" using ab b by simp
  ultimately show ?thesis
    unfolding span_of_def by (simp add: take_Suc_conv_app_nth)
qed

lemma Vars_Set_Set: "Vars_Set (Vars_Set vs k v) k v' = Vars_Set vs k v'"
  by (induction vs) auto

lemma set_all_snoc: "set_all vs (cs @ [(k, v)]) = Vars_Set (set_all vs cs) k v"
  by (simp add: set_all_def)

lemma spec_captures_snoc:
  "length ts = length sp \<Longrightarrow>
   spec_captures (ts @ [x]) (sp @ [w]) =
     spec_captures ts sp @ (case x of Named k \<Rightarrow> [(k, w)] | _ \<Rightarrow> [])"
proof (induction ts sp rule: list_induct2)
  case Nil
  then show ?case by (cases x) simp_all
next
  case (Cons y ys z zs)
  then show ?case by (cases y) simp_all
qed

lemma prefix_match_length: "prefix_match p t i j ts sp \<Longrightarrow> length ts = length sp"
  unfolding prefix_match_def using list_all2_lengthD by blast

lemma capture_friendly_append: "capture_friendly (a @ b) \<Longrightarrow> capture_friendly b"
proof (induction a)
  case Nil
  then show ?case by simp
next
  case (Cons x a)
  then show ?case by (cases x) auto
qed

lemma capture_friendly_Lit: "capture_friendly (Lit c # r) \<Longrightarrow> c \<noteq> CHR ''}''"
  by simp

lemma capture_friendly_Named:
  "capture_friendly (Named k # x # r) \<Longrightarrow> \<exists>c. x = Lit c"
  by (cases x) simp_all

lemma friendly_pattern_rest:
  assumes "friendly_pattern p" "spec_parse (take i p) = Some ts" "i < length p"
  shows "\<exists>r. spec_parse (p ! i # drop (Suc i) p) = Some r \<and> capture_friendly (ts @ r)"
proof -
  have p: "p = take i p @ (p ! i # drop (Suc i) p)"
    using assms(3) by (simp add: Cons_nth_drop_Suc)
  from assms(1) obtain al where al: "spec_parse p = Some al" "capture_friendly al"
    by (auto simp: friendly_pattern_def split: option.splits)
  from spec_parse_append[OF assms(2), of "p ! i # drop (Suc i) p"] p al(1)
  obtain r where "spec_parse (p ! i # drop (Suc i) p) = Some r" "al = ts @ r"
    by (cases "spec_parse (p ! i # drop (Suc i) p)") auto
  with al(2) show ?thesis by blast
qed

lemma friendly_pattern_Lit:
  assumes "friendly_pattern p" "spec_parse (take i p) = Some ts" "i < length p"
    "p ! i \<noteq> CHR ''*''" "p ! i \<noteq> CHR ''?''" "p ! i \<noteq> CHR ''{''"
  shows "p ! i \<noteq> CHR ''}''"
proof -
  from friendly_pattern_rest[OF assms(1-3)] obtain r where
    r: "spec_parse (p ! i # drop (Suc i) p) = Some r" "capture_friendly (ts @ r)" by blast
  from r(1) assms(4-6) obtain r' where "r = Lit (p ! i) # r'"
    by auto
  with capture_friendly_append[OF r(2)] show ?thesis by simp
qed

lemma friendly_pattern_after_Named:
  assumes "friendly_pattern p" "spec_parse (take i p) = Some (ts @ [Named k])" "i < length p"
  shows "p ! i \<noteq> CHR ''*'' \<and> p ! i \<noteq> CHR ''?'' \<and> p ! i \<noteq> CHR ''{''"
proof -
  from friendly_pattern_rest[OF assms(1-3)] obtain r where
    r: "spec_parse (p ! i # drop (Suc i) p) = Some r" "capture_friendly ((ts @ [Named k]) @ r)"
    by blast
  from r(2) have cf: "capture_friendly (Named k # r)"
    using capture_friendly_append[of ts "Named k # r"] by simp
  show ?thesis
  proof (rule ccontr)
    assume "\<not> ?thesis"
    with r(1) obtain x r' where "r = x # r'" "\<forall>c. x \<noteq> Lit c"
      by (auto split: if_splits)
    with cf capture_friendly_Named show False by blast
  qed
qed

section \<open>What the wildcard branch does\<close>

lemma wildcard_fresh:
  assumes "wildcard p s (p ! px s) = Inr (Continue s')" "nx s \<le> px s" "px s < length p"
    "p ! px s = CHR ''*'' \<or> p ! px s = CHR ''{''"
  shows "\<exists>wt q'. wild_at p (px s) = Some (wt, q') \<and> px s' = q' \<and> tx s' = tx s \<and>
      nextPx s' = px s \<and> nextTx s' = tx s + 1 \<and> vars s' = vars s \<and>
      (wt = Star \<longrightarrow> nx s' = nx s) \<and>
      (\<forall>k. wt = Named k \<longrightarrow> key s' = k \<and> nx s' + 1 = q' \<and> vx s' = tx s)"
proof (cases "p ! px s = CHR ''*''")
  case True
  with assms(1) show ?thesis
    by (auto simp: wildcard_def wild_at_def)
next
  case False
  with assms(4) have b: "p ! px s = CHR ''{''" by simp
  let ?i = "IndexByte (drop (px s + 1) p) CHR ''}''"
  from assms(1,2) b have i: "\<not> ?i < 0"
    by (auto simp: wildcard_def Let_def split: if_splits)
  then have nn: "int (nat ?i) = ?i" by simp
  from IndexByte_nat[of "drop (px s + 1) p" "CHR ''}''" "nat ?i"] nn
  have lt: "nat ?i < length (drop (px s + 1) p)" by simp
  then have len: "length (take (nat ?i) (drop (px s + 1) p)) = nat ?i" by simp
  have nat: "nat (int (px s + 1) + ?i) = px s + 1 + nat ?i"
    using i by (simp add: nat_add_distrib)
  show ?thesis
    using assms(1,2) b i len nat lt unfolding wildcard_def wild_at_def Let_def
    by (auto split: if_splits)
qed

lemma wildcard_cached:
  assumes "wildcard p s (p ! px s) = Inr (Continue s')" "wild_at p (px s) = Some (wt, q')"
    "\<forall>k. wt = Named k \<longrightarrow> key s = k \<and> nx s + 1 = q'"
  shows "px s' = q' \<and> tx s' = tx s \<and> nextPx s' = px s \<and> nextTx s' = tx s + 1 \<and>
      vars s' = vars s \<and> key s' = key s \<and> nx s' = nx s \<and> vx s' = vx s"
proof (cases wt)
  case Star
  with wild_at_Star[of p "px s" q'] assms(1,2) show ?thesis
    by (auto simp: wildcard_def)
next
  case (Named k)
  note w = wild_at_Named[OF assms(2)[unfolded Named]]
  from assms(3) Named have k: "key s = k" "nx s + 1 = q'" by simp_all
  with w(2) have "\<not> nx s < px s + 1" by simp
  with assms(1) w(1,2) k show ?thesis
    by (auto simp: wildcard_def Let_def)
qed (insert wild_at_kind[OF assms(2)], auto)

section \<open>The body keeps the invariant\<close>

lemma Match_inv_init:
  "Match_inv p t vs0 cf \<lparr>key = [], nx = 0, vx = 0, px = 0, tx = 0, nextPx = 0, nextTx = 0, vars = vs0\<rparr>"
  unfolding Match_inv_def plain_state_def using prefix_match_start[of p t]
  by (auto simp: set_all_def intro!: exI[of _ "[]"])

lemma retry_inv_cong:
  assumes "nextPx s' = nextPx s" "nextTx s' = nextTx s" "key s' = key s" "nx s' = nx s"
    "vx s' = vx s" "vars s' = vars s"
  shows "retry_inv p t vs0 cf s' ts0 sp0 j0 wt q' = retry_inv p t vs0 cf s ts0 sp0 j0 wt q'"
  unfolding retry_inv_def assms ..

lemma has_retry_cong:
  assumes "nextPx s' = nextPx s" "nextTx s' = nextTx s" "key s' = key s" "nx s' = nx s"
    "vx s' = vx s" "vars s' = vars s"
  shows "has_retry p t vs0 cf s' = has_retry p t vs0 cf s"
  unfolding has_retry_def retry_inv_cong[OF assms] ..

lemma step_retry:
  assumes i: "Match_inv p t vs0 cf s" and r: "retry p t s = Inr (Continue s')"
  shows "Match_inv p t vs0 cf s'"
proof -
  note f = retry_Continue[OF r]
  from f have s': "s' = s\<lparr>px := nextPx s, tx := nextTx s\<rparr>" by simp
  from f i have hr: "has_retry p t vs0 cf s" by (simp add: Match_inv_def)
  have "has_retry p t vs0 cf s'"
    using hr has_retry_cong[of s' s] s' by simp
  moreover have "at_resume t s'"
    using f s' by (simp add: at_resume_def)
  ultimately show ?thesis
    using f s' by (simp add: Match_inv_def)
qed

lemma after_wild_pm:
  assumes "retry_inv p t vs0 cf s ts0 sp0 j0 wt q'" "nextTx s = tx s + 1" "tx s \<le> length t"
  shows "prefix_match p t q' (tx s) (ts0 @ [wt]) (sp0 @ [span_of t j0 (tx s)])"
proof -
  from assms(1) have a: "prefix_match p t (nextPx s) j0 ts0 sp0" "nextPx s < length p"
    "wild_at p (nextPx s) = Some (wt, q')" "j0 < nextTx s"
    "CHR ''/'' \<notin> set (span_of t j0 (nextTx s - 1))"
    by (simp_all add: retry_inv_def)
  from a(4,5) assms(2) have "j0 \<le> tx s" "CHR ''/'' \<notin> set (take (tx s - j0) (drop j0 t))"
    by (simp_all add: span_of_def)
  from prefix_match_wild[OF a(1,2,3) this(1) assms(3) this(2)] show ?thesis
    by (simp add: span_of_def)
qed

lemma step_wild_resume:
  assumes i: "Match_inv p t vs0 cf s" and ar: "at_resume t s"
    and w: "wildcard p s (p ! px s) = Inr (Continue s')"
  shows "Match_inv p t vs0 cf s'"
proof -
  from ar have a: "px s = nextPx s" "tx s = nextTx s" "0 < tx s" "t ! (tx s - 1) \<noteq> CHR ''/''"
    unfolding at_resume_def by blast+
  from i a have "has_retry p t vs0 cf s" and txl: "tx s \<le> length t"
    by (simp_all add: Match_inv_def)
  then obtain ts0 sp0 j0 wt q' where ri: "retry_inv p t vs0 cf s ts0 sp0 j0 wt q'"
    unfolding has_retry_def by blast
  then have r: "prefix_match p t (nextPx s) j0 ts0 sp0" "nextPx s < length p"
    "wild_at p (nextPx s) = Some (wt, q')" "j0 < nextTx s"
    "CHR ''/'' \<notin> set (span_of t j0 (nextTx s - 1))" "wt = Star \<longrightarrow> nx s \<le> nextPx s"
    "\<forall>k. wt = Named k \<longrightarrow> key s = k \<and> nx s + 1 = q' \<and> vx s = j0"
    "cf \<longrightarrow> (wt = Star \<longrightarrow> vars s = set_all vs0 (spec_captures ts0 sp0)) \<and>
        (\<forall>k v. wt = Named k \<longrightarrow>
           Vars_Set (vars s) k v = Vars_Set (set_all vs0 (spec_captures ts0 sp0)) k v)"
    by (simp_all add: retry_inv_def)
  from r(3) a(1) have wa: "wild_at p (px s) = Some (wt, q')" by simp
  from r(7) have "\<forall>k. wt = Named k \<longrightarrow> key s = k \<and> nx s + 1 = q'" by simp
  from wildcard_cached[OF w wa this]
  have c: "px s' = q'" "tx s' = tx s" "nextPx s' = px s" "nextTx s' = tx s + 1"
    "vars s' = vars s" "key s' = key s" "nx s' = nx s" "vx s' = vx s"
    by simp_all
  have "span_of t j0 (Suc (nextTx s - 1)) = span_of t j0 (nextTx s - 1) @ [t ! (nextTx s - 1)]"
    using r(4) a(2,3) txl by (intro span_of_Suc) simp_all
  then have ns: "CHR ''/'' \<notin> set (span_of t j0 (nextTx s' - 1))"
    using r(5) a c by simp
  have ri': "retry_inv p t vs0 cf s' ts0 sp0 j0 wt q'"
    unfolding retry_inv_def using r a c ns txl by simp
  note b = wild_at_bounds[OF r(3,2)]
  have "nextTx s' = tx s' + 1" using c by simp
  with ri' c(1) have "after_wild p t vs0 cf s'"
    unfolding after_wild_def by blast
  moreover have "has_retry p t vs0 cf s'"
    unfolding has_retry_def using ri' by blast
  ultimately show ?thesis
    unfolding Match_inv_def using b c txl by simp
qed

lemma retry_inv_cong_nocf:
  assumes "\<not> cf" "nextPx s' = nextPx s" "nextTx s' = nextTx s" "key s' = key s" "nx s' = nx s"
    "vx s' = vx s"
  shows "retry_inv p t vs0 cf s' ts0 sp0 j0 wt q' = retry_inv p t vs0 cf s ts0 sp0 j0 wt q'"
  unfolding retry_inv_def using assms by simp

lemma literal_Continue_full:
  assumes "literal p t s = Inr (Continue s')"
  shows "px s' = px s + 1" "tx s' = tx s + 1" "nextPx s' = nextPx s" "nextTx s' = nextTx s"
    "key s' = key s" "nx s' = nx s" "vx s' = vx s"
    "(\<not> (px s > 0 \<and> p ! (px s - 1) = CHR ''}'') \<and> vars s' = vars s) \<or>
     (px s > 0 \<and> p ! (px s - 1) = CHR ''}'' \<and>
      (\<exists>v. slice t (vx s) (tx s) = Inr v \<and> vars s' = Vars_Set (vars s) (key s) v))"
  using assms unfolding literal_def by (auto split: if_splits sum.splits)

lemma wild_from_cur:
  assumes prefix_match: "prefix_match p t (px s) (tx s) ts sp" and nx: "nx s \<le> px s"
    and vs: "cf \<longrightarrow> vars s = set_all vs0 (spec_captures ts sp)"
    and lt: "px s < length p" and c: "p ! px s = CHR ''*'' \<or> p ! px s = CHR ''{''"
    and w: "wildcard p s (p ! px s) = Inr (Continue s')"
  shows "Match_inv p t vs0 cf s'"
proof -
  from wildcard_fresh[OF w nx lt c] obtain wt q' where
    f: "wild_at p (px s) = Some (wt, q')" "px s' = q'" "tx s' = tx s" "nextPx s' = px s"
      "nextTx s' = tx s + 1" "vars s' = vars s" "wt = Star \<longrightarrow> nx s' = nx s"
      "\<forall>k. wt = Named k \<longrightarrow> key s' = k \<and> nx s' + 1 = q' \<and> vx s' = tx s"
    by blast
  from prefix_match have txl: "tx s \<le> length t" by (simp add: prefix_match_def)
  note b = wild_at_bounds[OF f(1) lt]
  have ri: "retry_inv p t vs0 cf s' ts sp (tx s) wt q'"
    unfolding retry_inv_def using prefix_match nx vs lt f txl by (simp add: span_of_empty)
  then have "has_retry p t vs0 cf s'"
    unfolding has_retry_def by blast
  moreover have "nextTx s' = tx s' + 1" using f by simp
  with ri f(2) have "after_wild p t vs0 cf s'"
    unfolding after_wild_def by blast
  ultimately show ?thesis
    unfolding Match_inv_def using b f txl by simp
qed

lemma any_from_cur:
  assumes prefix_match: "prefix_match p t (px s) (tx s) ts sp" and nx: "nx s \<le> px s"
    and vs: "cf \<longrightarrow> vars s = set_all vs0 (spec_captures ts sp)"
    and hr: "0 < nextTx s \<longrightarrow> has_retry p t vs0 cf s"
    and lt: "px s < length p" "tx s < length t" and c: "p ! px s = CHR ''?''"
      "t ! tx s \<noteq> CHR ''/''"
    and s': "s' = s\<lparr>px := px s + 1, tx := tx s + DecodeRuneInString_width (drop (tx s) t)\<rparr>"
  shows "Match_inv p t vs0 cf s'"
proof -
  let ?w = "DecodeRuneInString_width (drop (tx s) t)"
  have pm': "prefix_match p t (Suc (px s)) (tx s + ?w) (ts @ [AnyOne]) (sp @ [take ?w (drop (tx s) t)])"
    using prefix_match_AnyOne[OF prefix_match lt(1,2) c] by simp
  have cap: "spec_captures (ts @ [AnyOne]) (sp @ [take ?w (drop (tx s) t)]) = spec_captures ts sp"
    using spec_captures_snoc[OF prefix_match_length[OF prefix_match]] by simp
  have "plain_state p t vs0 cf s'"
    unfolding plain_state_def
    using pm' nx vs cap c s' by (intro exI[of _ "ts @ [AnyOne]"] exI[of _ "sp @ [take ?w (drop (tx s) t)]"]) simp
  moreover have "has_retry p t vs0 cf s' = has_retry p t vs0 cf s"
    using s' by (intro has_retry_cong) simp_all
  moreover from pm' have "Suc (px s) \<le> length p" "tx s + ?w \<le> length t"
    by (simp_all add: prefix_match_def)
  ultimately show ?thesis
    unfolding Match_inv_def using hr s' by simp
qed

lemma after_star_plain:
  assumes ri: "retry_inv p t vs0 cf s ts0 sp0 j0 Star (px s)" and n: "nextTx s = tx s + 1"
    and txl: "tx s \<le> length t"
  shows "plain_state p t vs0 cf s"
proof -
  note prefix_match = after_wild_pm[OF ri n txl]
  from ri have r: "nextPx s < length p" "wild_at p (nextPx s) = Some (Star, px s)"
    "nx s \<le> nextPx s" "cf \<longrightarrow> vars s = set_all vs0 (spec_captures ts0 sp0)"
    "prefix_match p t (nextPx s) j0 ts0 sp0"
    by (simp_all add: retry_inv_def)
  note w = wild_at_Star[OF r(2)]
  have cap: "spec_captures (ts0 @ [Star]) (sp0 @ [span_of t j0 (tx s)]) = spec_captures ts0 sp0"
    using spec_captures_snoc[OF prefix_match_length[OF r(5)]] by simp
  show ?thesis
    unfolding plain_state_def
    using prefix_match r(3,4) w cap
    by (intro exI[of _ "ts0 @ [Star]"] exI[of _ "sp0 @ [span_of t j0 (tx s)]"]) simp
qed

lemma Match_inv_modes:
  assumes "Match_inv p t vs0 cf s"
  shows "at_resume t s \<or> plain_state p t vs0 cf s \<or> pending p t vs0 cf s"
proof -
  from assms have txl: "tx s \<le> length t"
    and m: "at_resume t s \<or> after_wild p t vs0 cf s \<or> plain_state p t vs0 cf s"
    by (simp_all add: Match_inv_def)
  show ?thesis
  proof (cases "after_wild p t vs0 cf s")
    case True
    then obtain ts0 sp0 j0 wt q' where
      a: "retry_inv p t vs0 cf s ts0 sp0 j0 wt q'" "px s = q'" "nextTx s = tx s + 1"
      unfolding after_wild_def by blast
    from a(1) have "wild_at p (nextPx s) = Some (wt, q')" by (simp add: retry_inv_def)
    from wild_at_kind[OF this] show ?thesis
    proof
      assume "wt = Star"
      with a after_star_plain[OF _ a(3) txl] show ?thesis by blast
    next
      assume "\<exists>k. wt = Named k"
      with a show ?thesis unfolding pending_def by blast
    qed
  next
    case False
    with m show ?thesis by blast
  qed
qed

lemma at_resume_wild:
  assumes "Match_inv p t vs0 cf s" "at_resume t s"
  shows "px s < length p \<and> (p ! px s = CHR ''*'' \<or> p ! px s = CHR ''{'')"
proof -
  from assms have "has_retry p t vs0 cf s" "px s = nextPx s"
    by (simp_all add: Match_inv_def at_resume_def)
  then obtain ts0 sp0 j0 wt q' where "retry_inv p t vs0 cf s ts0 sp0 j0 wt q'"
    unfolding has_retry_def by blast
  then have "nextPx s < length p" "wild_at p (nextPx s) = Some (wt, q')"
    by (simp_all add: retry_inv_def)
  with wild_at_cases[OF this(2)] \<open>px s = nextPx s\<close> show ?thesis by auto
qed

lemma pending_facts:
  assumes "pending p t vs0 cf s" "tx s \<le> length t"
  obtains ts0 sp0 j0 k where
    "retry_inv p t vs0 cf s ts0 sp0 j0 (Named k) (px s)"
    "prefix_match p t (px s) (tx s) (ts0 @ [Named k]) (sp0 @ [span_of t j0 (tx s)])"
    "nx s < px s" "0 < px s" "p ! (px s - 1) = CHR ''}''" "key s = k"
    "slice t (vx s) (tx s) = Inr (span_of t j0 (tx s))" "nextTx s = tx s + 1"
    "length ts0 = length sp0"
proof -
  from assms(1) obtain ts0 sp0 j0 k where
    ri: "retry_inv p t vs0 cf s ts0 sp0 j0 (Named k) (px s)" and n: "nextTx s = tx s + 1"
    unfolding pending_def by blast
  note prefix_match = after_wild_pm[OF ri n assms(2)]
  from ri have r: "nextPx s < length p" "wild_at p (nextPx s) = Some (Named k, px s)"
    "key s = k" "nx s + 1 = px s" "vx s = j0" "j0 < nextTx s" "prefix_match p t (nextPx s) j0 ts0 sp0"
    by (simp_all add: retry_inv_def)
  note w = wild_at_Named[OF r(2)]
  from r(6) n have "j0 \<le> tx s" by simp
  then have sl: "slice t (vx s) (tx s) = Inr (span_of t j0 (tx s))"
    using r(5) assms(2) by (simp add: slice_sub)
  from r(4) have "nx s < px s" "0 < px s" by simp_all
  with ri prefix_match w(3) r(3) sl n prefix_match_length[OF r(7)] that show ?thesis by blast
qed

lemma step_wild:
  assumes i: "Match_inv p t vs0 cf s" and fr: "cf \<longrightarrow> friendly_pattern p"
    and lt: "px s < length p" and c: "p ! px s = CHR ''*'' \<or> p ! px s = CHR ''{''"
    and w: "wildcard p s (p ! px s) = Inr (Continue s')"
  shows "Match_inv p t vs0 cf s'"
proof -
  from i have txl: "tx s \<le> length t" by (simp add: Match_inv_def)
  from Match_inv_modes[OF i] consider (r) "at_resume t s" | (p) "plain_state p t vs0 cf s"
    | (n) "pending p t vs0 cf s" by blast
  then show ?thesis
  proof cases
    case r
    then show ?thesis by (rule step_wild_resume[OF i _ w])
  next
    case p
    then obtain ts sp where "prefix_match p t (px s) (tx s) ts sp" "nx s \<le> px s"
      "cf \<longrightarrow> vars s = set_all vs0 (spec_captures ts sp)"
      unfolding plain_state_def by blast
    then show ?thesis by (rule wild_from_cur[OF _ _ _ lt c w])
  next
    case n
    from pending_facts[OF n txl] obtain ts0 sp0 j0 k where
      f: "prefix_match p t (px s) (tx s) (ts0 @ [Named k]) (sp0 @ [span_of t j0 (tx s)])" "nx s < px s"
      by metis
    have "\<not> cf"
    proof
      assume cf
      with fr have "friendly_pattern p" by simp
      from friendly_pattern_after_Named[OF this _ lt, of ts0 k] f(1) c show False
        by (simp add: prefix_match_def)
    qed
    then have v: "cf \<longrightarrow> vars s = set_all vs0 (spec_captures (ts0 @ [Named k]) (sp0 @ [span_of t j0 (tx s)]))"
      by simp
    from f(2) have "nx s \<le> px s" by simp
    from wild_from_cur[OF f(1) this v lt c w] show ?thesis .
  qed
qed

lemma step_any:
  assumes i: "Match_inv p t vs0 cf s" and fr: "cf \<longrightarrow> friendly_pattern p"
    and lt: "px s < length p" "tx s < length t" and c: "p ! px s = CHR ''?''"
      "t ! tx s \<noteq> CHR ''/''"
    and s': "s' = s\<lparr>px := px s + 1, tx := tx s + DecodeRuneInString_width (drop (tx s) t)\<rparr>"
  shows "Match_inv p t vs0 cf s'"
proof -
  from i have txl: "tx s \<le> length t" and hr: "0 < nextTx s \<longrightarrow> has_retry p t vs0 cf s"
    by (simp_all add: Match_inv_def)
  from Match_inv_modes[OF i] consider (r) "at_resume t s" | (p) "plain_state p t vs0 cf s"
    | (n) "pending p t vs0 cf s" by blast
  then show ?thesis
  proof cases
    case r
    with at_resume_wild[OF i] c(1) show ?thesis by simp
  next
    case p
    then obtain ts sp where "prefix_match p t (px s) (tx s) ts sp" "nx s \<le> px s"
      "cf \<longrightarrow> vars s = set_all vs0 (spec_captures ts sp)"
      unfolding plain_state_def by blast
    then show ?thesis by (rule any_from_cur[OF _ _ _ hr lt c s'])
  next
    case n
    from pending_facts[OF n txl] obtain ts0 sp0 j0 k where
      f: "prefix_match p t (px s) (tx s) (ts0 @ [Named k]) (sp0 @ [span_of t j0 (tx s)])" "nx s < px s"
      by metis
    have "\<not> cf"
    proof
      assume cf
      with fr have "friendly_pattern p" by simp
      from friendly_pattern_after_Named[OF this _ lt(1), of ts0 k] f(1) c show False
        by (simp add: prefix_match_def)
    qed
    then have v: "cf \<longrightarrow> vars s = set_all vs0 (spec_captures (ts0 @ [Named k]) (sp0 @ [span_of t j0 (tx s)]))"
      by simp
    from f(2) have "nx s \<le> px s" by simp
    from any_from_cur[OF f(1) this v hr lt c s'] show ?thesis .
  qed
qed

lemma step_lit:
  assumes i: "Match_inv p t vs0 cf s" and fr: "cf \<longrightarrow> friendly_pattern p"
    and lt: "px s < length p" "tx s < length t"
    and c: "t ! tx s = p ! px s" "p ! px s \<noteq> CHR ''*''" "p ! px s \<noteq> CHR ''?''"
      "p ! px s \<noteq> CHR ''{''"
    and l: "literal p t s = Inr (Continue s')"
  shows "Match_inv p t vs0 cf s'"
proof -
  from i have txl: "tx s \<le> length t" and hr: "0 < nextTx s \<longrightarrow> has_retry p t vs0 cf s"
    by (simp_all add: Match_inv_def)
  note f = literal_Continue_full[OF l]
  from Match_inv_modes[OF i] consider (r) "at_resume t s" | (p) "plain_state p t vs0 cf s"
    | (n) "pending p t vs0 cf s" by blast
  then show ?thesis
  proof cases
    case r
    with at_resume_wild[OF i] c show ?thesis by simp
  next
    case p
    then obtain ts sp where pl: "prefix_match p t (px s) (tx s) ts sp" "nx s \<le> px s"
      "cf \<longrightarrow> vars s = set_all vs0 (spec_captures ts sp) \<and>
         (px s = 0 \<or> p ! (px s - 1) \<noteq> CHR ''}'')"
      unfolding plain_state_def by blast
    note pm' = prefix_match_Lit[OF pl(1) lt c]
    have cap: "spec_captures (ts @ [Lit (p ! px s)]) (sp @ [[p ! px s]]) = spec_captures ts sp"
      using spec_captures_snoc[OF prefix_match_length[OF pl(1)]] by simp
    have vs: "cf \<longrightarrow> vars s' = vars s"
      using f(8) pl(3) by auto
    have last: "cf \<longrightarrow> p ! px s \<noteq> CHR ''}''"
    proof
      assume cf
      with fr have "friendly_pattern p" by simp
      from friendly_pattern_Lit[OF this _ lt(1) c(2-4)] pl(1) show "p ! px s \<noteq> CHR ''}''"
        by (simp add: prefix_match_def)
    qed
    have "plain_state p t vs0 cf s'"
      unfolding plain_state_def
      using pm' pl(2,3) cap vs last f(1,2,6)
      by (intro exI[of _ "ts @ [Lit (p ! px s)]"] exI[of _ "sp @ [[p ! px s]]"]) simp
    moreover have "has_retry p t vs0 cf s' = has_retry p t vs0 cf s"
    proof (cases cf)
      case True
      with vs f show ?thesis by (intro has_retry_cong) simp_all
    next
      case False
      have eq: "retry_inv p t vs0 cf s' ts0 sp0 j0 wt q' = retry_inv p t vs0 cf s ts0 sp0 j0 wt q'"
        for ts0 sp0 j0 wt q'
        using False f by (intro retry_inv_cong_nocf) simp_all
      show ?thesis
        unfolding has_retry_def using eq by blast
    qed
    moreover from pm' have "Suc (px s) \<le> length p" "Suc (tx s) \<le> length t"
      by (simp_all add: prefix_match_def)
    ultimately show ?thesis
      unfolding Match_inv_def using hr f by simp
  next
    case n
    from pending_facts[OF n txl] obtain ts0 sp0 j0 k where
      g: "retry_inv p t vs0 cf s ts0 sp0 j0 (Named k) (px s)"
        "prefix_match p t (px s) (tx s) (ts0 @ [Named k]) (sp0 @ [span_of t j0 (tx s)])"
        "nx s < px s" "0 < px s" "p ! (px s - 1) = CHR ''}''" "key s = k"
        "slice t (vx s) (tx s) = Inr (span_of t j0 (tx s))" "nextTx s = tx s + 1"
        "length ts0 = length sp0"
      by metis
    let ?v = "span_of t j0 (tx s)"
    from f(8) g(4,5,6,7) have vs: "vars s' = Vars_Set (vars s) k ?v" by auto
    note pm' = prefix_match_Lit[OF g(2) lt c]
    from g(1) have rv: "cf \<longrightarrow> (\<forall>v. Vars_Set (vars s) k v =
        Vars_Set (set_all vs0 (spec_captures ts0 sp0)) k v)"
      by (simp add: retry_inv_def)
    have cap1: "spec_captures (ts0 @ [Named k]) (sp0 @ [?v]) = spec_captures ts0 sp0 @ [(k, ?v)]"
      using spec_captures_snoc[OF g(9)] by simp
    have cap2: "spec_captures ((ts0 @ [Named k]) @ [Lit (p ! px s)]) ((sp0 @ [?v]) @ [[p ! px s]])
        = spec_captures ts0 sp0 @ [(k, ?v)]"
      using spec_captures_snoc[OF prefix_match_length[OF g(2)], of "Lit (p ! px s)" "[p ! px s]"] cap1
      by simp
    have v': "cf \<longrightarrow> vars s' = set_all vs0 (spec_captures ts0 sp0 @ [(k, ?v)])"
      using vs rv by (simp add: set_all_snoc)
    have last: "cf \<longrightarrow> p ! px s \<noteq> CHR ''}''"
    proof
      assume cf
      with fr have "friendly_pattern p" by simp
      from friendly_pattern_Lit[OF this _ lt(1) c(2-4)] g(2) show "p ! px s \<noteq> CHR ''}''"
        by (simp add: prefix_match_def)
    qed
    have "plain_state p t vs0 cf s'"
      unfolding plain_state_def
      using pm' g(3) cap2 v' last f(1,2,6)
      by (intro exI[of _ "(ts0 @ [Named k]) @ [Lit (p ! px s)]"]
          exI[of _ "(sp0 @ [?v]) @ [[p ! px s]]"]) simp
    moreover have "retry_inv p t vs0 cf s' ts0 sp0 j0 (Named k) (px s)"
      using g(1) f(3-7) vs rv unfolding retry_inv_def by (simp add: Vars_Set_Set)
    then have "has_retry p t vs0 cf s'"
      unfolding has_retry_def by blast
    moreover from pm' have "Suc (px s) \<le> length p" "Suc (tx s) \<le> length t"
      by (simp_all add: prefix_match_def)
    ultimately show ?thesis
      unfolding Match_inv_def using f by simp
  qed
qed

lemma body_cases:
  assumes "Match_body p t s = Inr (Continue s')"
  obtains (any) "px s < length p" "p ! px s = CHR ''?''" "tx s < length t" "t ! tx s \<noteq> CHR ''/''"
      "s' = s\<lparr>px := px s + 1, tx := tx s + DecodeRuneInString_width (drop (tx s) t)\<rparr>"
    | (wild) "px s < length p" "p ! px s = CHR ''*'' \<or> p ! px s = CHR ''{''"
      "wildcard p s (p ! px s) = Inr (Continue s')"
    | (lit) "px s < length p" "tx s < length t" "t ! tx s = p ! px s" "p ! px s \<noteq> CHR ''*''"
      "p ! px s \<noteq> CHR ''?''" "p ! px s \<noteq> CHR ''{''" "literal p t s = Inr (Continue s')"
    | (retry) "retry p t s = Inr (Continue s')"
  using assms unfolding Match_body_def Let_def by (auto split: if_splits)

lemma step_body:
  assumes i: "Match_inv p t vs0 cf s" and fr: "cf \<longrightarrow> friendly_pattern p"
    and b: "Match_body p t s = Inr (Continue s')"
  shows "Match_inv p t vs0 cf s'"
  using b
proof (cases rule: body_cases)
  case any
  then show ?thesis using step_any[OF i fr] by blast
next
  case wild
  then show ?thesis using step_wild[OF i fr] by blast
next
  case lit
  then show ?thesis using step_lit[OF i fr] by blast
next
  case retry
  then show ?thesis using step_retry[OF i] by blast
qed

section \<open>Soundness of \<open>Match\<close>\<close>

lemma finish_inv:
  assumes i: "Match_inv p t vs0 cf s" and e: "\<not> (px s < length p \<or> tx s < length t)"
    and f: "finish p t s = Inr (b, vs')"
  shows "\<exists>ts sp. spec_parse p = Some ts \<and> spec_match ts sp t \<and>
           (cf \<longrightarrow> vs' = set_all vs0 (spec_captures ts sp))"
proof -
  from i e have px: "px s = length p" and tx: "tx s = length t"
    by (simp_all add: Match_inv_def)
  from Match_inv_modes[OF i] consider (r) "at_resume t s" | (p) "plain_state p t vs0 cf s"
    | (n) "pending p t vs0 cf s" by blast
  then show ?thesis
  proof cases
    case r
    with at_resume_wild[OF i] px show ?thesis by simp
  next
    case p
    then obtain ts sp where pl: "prefix_match p t (px s) (tx s) ts sp"
      "cf \<longrightarrow> vars s = set_all vs0 (spec_captures ts sp) \<and>
         (px s = 0 \<or> p ! (px s - 1) \<noteq> CHR ''}'')"
      unfolding plain_state_def by blast
    from pl(1) px tx have "spec_parse p = Some ts" "spec_match ts sp t"
      by (simp_all add: prefix_match_def spec_match_def)
    moreover have "cf \<longrightarrow> vs' = set_all vs0 (spec_captures ts sp)"
      using pl(2) f unfolding finish_def by (auto split: if_splits)
    ultimately show ?thesis by blast
  next
    case n
    from pending_facts[OF n] tx obtain ts0 sp0 j0 k where
      g: "retry_inv p t vs0 cf s ts0 sp0 j0 (Named k) (px s)"
        "prefix_match p t (px s) (tx s) (ts0 @ [Named k]) (sp0 @ [span_of t j0 (tx s)])"
        "0 < px s" "p ! (px s - 1) = CHR ''}''" "key s = k"
        "slice t (vx s) (tx s) = Inr (span_of t j0 (tx s))"
        "length ts0 = length sp0"
      by (metis order_refl)
    let ?v = "span_of t j0 (tx s)"
    from f g(3-6) px have vs: "vs' = Vars_Set (vars s) k ?v"
      unfolding finish_def by (simp split: if_splits)
    from g(1) have rv: "cf \<longrightarrow> (\<forall>v. Vars_Set (vars s) k v =
        Vars_Set (set_all vs0 (spec_captures ts0 sp0)) k v)"
      by (simp add: retry_inv_def)
    have cap1: "spec_captures (ts0 @ [Named k]) (sp0 @ [?v]) = spec_captures ts0 sp0 @ [(k, ?v)]"
      using spec_captures_snoc[OF g(7)] by simp
    from g(2) px tx have "spec_parse p = Some (ts0 @ [Named k])"
      "spec_match (ts0 @ [Named k]) (sp0 @ [?v]) t"
      by (simp_all add: prefix_match_def spec_match_def)
    moreover have "cf \<longrightarrow> vs' = set_all vs0 (spec_captures (ts0 @ [Named k]) (sp0 @ [?v]))"
      using vs rv cap1 by (simp add: set_all_snoc)
    ultimately show ?thesis by blast
  qed
qed

lemma Match_sound:
  assumes m: "Match p t vs0 = Inr (True, vs')" and fr: "cf \<longrightarrow> friendly_pattern p"
  shows "\<exists>ts sp. spec_parse p = Some ts \<and> spec_match ts sp t \<and>
           (cf \<longrightarrow> vs' = set_all vs0 (spec_captures ts sp))"
proof -
  let ?Q = "\<lambda>r. fst r \<longrightarrow> (\<exists>ts sp. spec_parse p = Some ts \<and> spec_match ts sp t \<and>
           (cf \<longrightarrow> snd r = set_all vs0 (spec_captures ts sp)))"
  from m have "Match_loop p t
      \<lparr>key = [], nx = 0, vx = 0, px = 0, tx = 0, nextPx = 0, nextTx = 0, vars = vs0\<rparr>
      = Inr (True, vs')"
    by (simp add: Match_def)
  then have "?Q (True, vs')"
  proof (rule Match_loop_invariant[where I = "Match_inv p t vs0 cf" and Q = ?Q])
    show "Match_inv p t vs0 cf
      \<lparr>key = [], nx = 0, vx = 0, px = 0, tx = 0, nextPx = 0, nextTx = 0, vars = vs0\<rparr>"
      by (rule Match_inv_init)
  next
    fix s s'
    assume "Match_inv p t vs0 cf s" "Match_body p t s = Inr (Continue s')"
    then show "Match_inv p t vs0 cf s'" using step_body fr by blast
  next
    fix s b vs
    assume "Match_body p t s = Inr (Return b vs)"
    then show "?Q (b, vs)" using body_Return by fastforce
  next
    fix s r
    assume "Match_inv p t vs0 cf s" "\<not> (px s < length p \<or> tx s < length t)" "finish p t s = Inr r"
    then show "?Q r" using finish_inv[of p t vs0 cf s "fst r" "snd r"] by simp
  qed
  then show ?thesis by simp
qed

section \<open>The keys of the capture list\<close>

lemma spec_captures_names:
  "length ts = length sp \<Longrightarrow> map fst (spec_captures ts sp) = term_names ts"
proof (induction ts sp rule: list_induct2)
  case Nil
  then show ?case by simp
next
  case (Cons x xs y ys)
  then show ?case by (cases x) simp_all
qed

lemma Vars_Set_keys: "fst ` set (Vars_Set vs k v) = insert k (fst ` set vs)"
  by (induction vs) auto

lemma Vars_Set_distinct: "distinct (map fst vs) \<Longrightarrow> distinct (map fst (Vars_Set vs k v))"
  by (induction vs) (auto simp: Vars_Set_keys)

lemma Vars_Set_fresh: "k \<notin> set (map fst vs) \<Longrightarrow> Vars_Set vs k v = vs @ [(k, v)]"
  by (induction vs) auto

lemma set_all_keys: "fst ` set (set_all vs cs) = fst ` set vs \<union> fst ` set cs"
proof (induction cs rule: rev_induct)
  case Nil
  then show ?case by (simp add: set_all_def)
next
  case (snoc x xs)
  obtain k v where x: "x = (k, v)" by (cases x)
  show ?case
    unfolding x set_all_snoc using snoc by (simp add: Vars_Set_keys)
qed

lemma set_all_distinct: "distinct (map fst vs) \<Longrightarrow> distinct (map fst (set_all vs cs))"
proof (induction cs rule: rev_induct)
  case Nil
  then show ?case by (simp add: set_all_def)
next
  case (snoc x xs)
  obtain k v where x: "x = (k, v)" by (cases x)
  show ?case
    unfolding x set_all_snoc using snoc by (simp add: Vars_Set_distinct)
qed

lemma set_all_fresh: "distinct (map fst cs) \<Longrightarrow> set_all [] cs = cs"
proof (induction cs rule: rev_induct)
  case Nil
  then show ?case by (simp add: set_all_def)
next
  case (snoc x xs)
  obtain k v where x: "x = (k, v)" by (cases x)
  from snoc.prems x have d: "distinct (map fst xs)" "k \<notin> set (map fst xs)" by simp_all
  with snoc.IH have "set_all [] xs = xs" by simp
  with d show ?case
    unfolding x set_all_snoc by (simp add: Vars_Set_fresh)
qed

section \<open>The decoder on encoded code points\<close>

lemma of_char_of_small: "n < 256 \<Longrightarrow> (of_char (char_of n) :: nat) = n"
  by simp















section \<open>Where \<open>Match\<close> does not panic\<close>

lemma Match_loop_returns:
  assumes "I s"
    and "\<And>s s'. I s \<Longrightarrow> px s < length p \<or> tx s < length t \<Longrightarrow>
           Match_body p t s = Inr (Continue s') \<Longrightarrow> I s'"
    and "\<And>s e. I s \<Longrightarrow> px s < length p \<or> tx s < length t \<Longrightarrow> Match_body p t s \<noteq> Inl e"
    and "\<And>s e. I s \<Longrightarrow> \<not> (px s < length p \<or> tx s < length t) \<Longrightarrow> finish p t s \<noteq> Inl e"
  shows "\<exists>r. Match_loop p t s = Inr r"
  using assms
proof (induction p t s rule: Match_loop.induct)
  case (1 p t s)
  note inv = "1.prems"(1) and step = "1.prems"(2) and nb = "1.prems"(3) and nf = "1.prems"(4)
  show ?case
  proof (cases "px s < length p \<or> tx s < length t")
    case False
    show ?thesis
    proof (cases "finish p t s")
      case (Inl e)
      with nf[OF inv False, of e] show ?thesis by simp
    next
      case (Inr r)
      with False show ?thesis by (simp add: Match_loop_exit)
    qed
  next
    case True
    show ?thesis
    proof (cases "Match_body p t s")
      case (Inl e)
      with nb[OF inv True, of e] show ?thesis by simp
    next
      case (Inr x)
      show ?thesis
      proof (cases x)
        case (Continue s')
        have "I s'" using step inv True Inr Continue by blast
        then have "\<exists>r. Match_loop p t s' = Inr r"
          using "1.IH"[OF True Inr Continue] step nb nf by blast
        then show ?thesis
          using Match_loop_continue[OF True] Inr Continue by simp
      next
        case (Return b vs)
        then show ?thesis
          using Match_loop_return[OF True] Inr by simp
      qed
    qed
  qed
qed

lemma wildcard_cursors:
  assumes "wildcard p s c = Inr (Continue s')"
  shows "tx s' = tx s" "nextTx s' = tx s + 1" "vx s' = vx s \<or> vx s' = tx s"
  using assms unfolding wildcard_def Let_def by (auto split: if_splits)

lemma cursors_step:
  assumes c: "cursors_ok p s" and ne: "p \<noteq> []"
    and b: "Match_body p t s = Inr (Continue s')"
  shows "cursors_ok p s'"
  using b
proof (cases rule: body_cases)
  case any
  with c show ?thesis
    unfolding cursors_ok_def by (cases "px s = 0") auto
next
  case wild
  from wildcard_cursors[OF wild(3)] c show ?thesis
    unfolding cursors_ok_def by auto
next
  case lit
  note f = literal_Continue_full[OF lit(7)]
  from f(1-4,7) lit(4,6) c show ?thesis
    unfolding cursors_ok_def by (cases "px s = 0") auto
next
  case retry
  from retry_Continue[OF retry] c show ?thesis
    unfolding cursors_ok_def by auto
qed

lemma retry_no_panic:
  assumes "nextTx s \<le> length t \<longrightarrow> nextPx s < length p \<and>
      (p ! nextPx s = CHR ''*'' \<or> p ! nextPx s = CHR ''{'' \<longrightarrow> 0 < nextTx s)"
  shows "retry p t s \<noteq> Inl e"
  using assms unfolding retry_def Let_def by auto

lemma wildcard_panic:
  assumes "wildcard p s c = Inl e" "px s < length p"
  shows "c = CHR ''{'' \<and> nx s < px s + 1 \<and> IndexByte (drop (px s + 1) p) CHR ''}'' < 0"
proof -
  let ?i = "IndexByte (drop (px s + 1) p) CHR ''}''"
  have "int (px s + 1) + ?i \<le> int (length p)" if "0 \<le> ?i"
  proof -
    from that have "?i = int (nat ?i)" by simp
    from IndexByte_nat[OF this] have "nat ?i < length p - (px s + 1)" by simp
    with that show ?thesis by linarith
  qed
  with assms show ?thesis
    unfolding wildcard_def Let_def by (auto split: if_splits)
qed

lemma spec_parse_rest:
  assumes "spec_parse p = Some al" "spec_parse (take i p) = Some ts" "i < length p"
  shows "\<exists>r. spec_parse (p ! i # drop (Suc i) p) = Some r"
proof -
  have p: "p = take i p @ (p ! i # drop (Suc i) p)"
    using assms(3) by (simp add: Cons_nth_drop_Suc)
  from spec_parse_append[OF assms(2), of "p ! i # drop (Suc i) p"] p assms(1)
  show ?thesis
    by (cases "spec_parse (p ! i # drop (Suc i) p)") auto
qed

lemma cur_boundary:
  assumes i: "Match_inv p t vs0 cf s" and nr: "\<not> at_resume t s"
  shows "\<exists>ts. spec_parse (take (px s) p) = Some ts"
proof -
  from i have txl: "tx s \<le> length t" by (simp add: Match_inv_def)
  from Match_inv_modes[OF i] nr consider (p) "plain_state p t vs0 cf s"
    | (n) "pending p t vs0 cf s" by blast
  then show ?thesis
  proof cases
    case p
    then show ?thesis unfolding plain_state_def prefix_match_def by blast
  next
    case n
    from pending_facts[OF n txl] obtain ts0 sp0 j0 k where
      "prefix_match p t (px s) (tx s) (ts0 @ [Named k]) (sp0 @ [span_of t j0 (tx s)])"
      by metis
    then show ?thesis unfolding prefix_match_def by blast
  qed
qed

lemma wildcard_no_panic:
  assumes i: "Match_inv p t vs0 cf s" and sp: "spec_parse p = Some al"
    and lt: "px s < length p"
  shows "wildcard p s (p ! px s) \<noteq> Inl e"
proof
  assume "wildcard p s (p ! px s) = Inl e"
  from wildcard_panic[OF this lt] have w: "p ! px s = CHR ''{''" "nx s < px s + 1"
    "IndexByte (drop (px s + 1) p) CHR ''}'' < 0" by simp_all
  show False
  proof (cases "at_resume t s")
    case True
    with i have "has_retry p t vs0 cf s" "px s = nextPx s"
      by (simp_all add: Match_inv_def at_resume_def)
    then obtain ts0 sp0 j0 wt q' where ri: "retry_inv p t vs0 cf s ts0 sp0 j0 wt q'"
      unfolding has_retry_def by blast
    then have wa: "wild_at p (px s) = Some (wt, q')"
      and k: "\<forall>k. wt = Named k \<longrightarrow> key s = k \<and> nx s + 1 = q' \<and> vx s = j0"
      using \<open>px s = nextPx s\<close> by (simp_all add: retry_inv_def)
    from wild_at_cases[OF wa] w(1) obtain k where wt: "wt = Named k" by auto
    from wild_at_Named(2)[OF wa[unfolded wt]] k wt w(2) show False by simp
  next
    case False
    from cur_boundary[OF i False] obtain ts where "spec_parse (take (px s) p) = Some ts" by blast
    from spec_parse_rest[OF sp this lt] w(1) have "CHR ''}'' \<in> set (drop (Suc (px s)) p)"
      by (auto split: if_splits)
    with w(3) show False by (simp add: IndexByte_neg)
  qed
qed

lemma body_no_panic:
  assumes i: "Match_inv p t vs0 cf s" and c: "cursors_ok p s" and ne: "p \<noteq> []"
    and sp: "spec_parse p = Some al"
  shows "Match_body p t s \<noteq> Inl e"
proof -
  from i have hr: "0 < nextTx s \<longrightarrow> has_retry p t vs0 cf s"
    by (simp add: Match_inv_def)
  have r: "retry p t s \<noteq> Inl e"
    if nw: "\<not> (px s < length p \<and> (p ! px s = CHR ''*'' \<or> p ! px s = CHR ''{''))"
  proof (rule retry_no_panic, intro impI conjI)
    show "nextPx s < length p"
    proof (cases "0 < nextTx s")
      case True
      with hr show ?thesis unfolding has_retry_def retry_inv_def by blast
    next
      case False
      with c ne show ?thesis by (simp add: cursors_ok_def)
    qed
    assume wc: "p ! nextPx s = CHR ''*'' \<or> p ! nextPx s = CHR ''{''"
    show "0 < nextTx s"
    proof (rule ccontr)
      assume "\<not> 0 < nextTx s"
      with c have z: "nextPx s = 0" "0 < px s \<longrightarrow> p ! 0 \<noteq> CHR ''*'' \<and> p ! 0 \<noteq> CHR ''{''"
        by (simp_all add: cursors_ok_def)
      show False
      proof (cases "px s = 0")
        case True
        with nw ne wc z(1) show False by simp
      next
        case False
        with z wc show False by simp
      qed
    qed
  qed
  have l: "literal p t s \<noteq> Inl e" if "tx s < length t"
    using that c unfolding literal_def slice_def cursors_ok_def by simp
  show ?thesis
  proof (cases "px s < length p")
    case False
    then show ?thesis using r by (simp add: Match_body_def)
  next
    case True
    note w = wildcard_no_panic[OF i sp True, of e]
    show ?thesis
      using True r l w unfolding Match_body_def Let_def by auto
  qed
qed

lemma finish_no_panic:
  assumes i: "Match_inv p t vs0 cf s" and c: "cursors_ok p s"
  shows "finish p t s \<noteq> Inl e"
proof -
  from i have "px s \<le> length p" "tx s \<le> length t" by (simp_all add: Match_inv_def)
  with c show ?thesis
    unfolding finish_def slice_def cursors_ok_def by auto
qed

text \<open>
  \<open>Match\<close> returns, with true or false, on every pattern that is not empty and in which
  every \<open>{\<close> that starts a term has its \<open>}\<close>.
\<close>

lemma Match_returns:
  assumes ne: "p \<noteq> []" and sp: "spec_parse p \<noteq> None"
  shows "\<exists>b vs'. Match p t vs = Inr (b, vs')"
proof -
  from sp obtain al where al: "spec_parse p = Some al" by auto
  let ?I = "\<lambda>s. Match_inv p t vs False s \<and> cursors_ok p s"
  let ?s0 = "\<lparr>key = [], nx = 0, vx = 0, px = 0, tx = 0, nextPx = 0, nextTx = 0, vars = vs\<rparr>"
  have "\<exists>r. Match_loop p t ?s0 = Inr r"
  proof (rule Match_loop_returns[where I = ?I])
    show "?I ?s0"
      using Match_inv_init[of p t vs False] by (simp add: cursors_ok_def)
  next
    fix s s'
    assume "?I s" "Match_body p t s = Inr (Continue s')"
    then show "?I s'"
      using step_body[of p t vs False s s'] cursors_step[OF _ ne, of s t s'] by simp
  next
    fix s e
    assume "?I s"
    then show "Match_body p t s \<noteq> Inl e"
      using body_no_panic[OF _ _ ne al] by blast
  next
    fix s e
    assume "?I s"
    then show "finish p t s \<noteq> Inl e"
      using finish_no_panic by blast
  qed
  then show ?thesis by (simp add: Match_def)
qed

section \<open>The named term that ends a pattern\<close>

text \<open>
  When the pattern ends with a named term, the code after the loop binds it: a state in
  which the loop ends is just past that term, never past a literal or a \<open>?\<close>.
\<close>

lemma Vars_Set_mem: "(k, v) \<in> set (Vars_Set vs k v)"
  by (induction vs) auto

lemma finish_last_named:
  assumes i: "Match_inv p t vs0 cf s" and e: "\<not> (px s < length p \<or> tx s < length t)"
    and f: "finish p t s = Inr (b, vs')" and sp: "spec_parse p = Some (ts0 @ [Named k])"
  shows "\<exists>sp0 w. spec_match (ts0 @ [Named k]) (sp0 @ [w]) t \<and> vs' = Vars_Set (vars s) k w"
proof -
  from i e have px: "px s = length p" and tx: "tx s = length t"
    by (simp_all add: Match_inv_def)
  from Match_inv_modes[OF i] consider (r) "at_resume t s" | (p) "plain_state p t vs0 cf s"
    | (n) "pending p t vs0 cf s" by blast
  then show ?thesis
  proof cases
    case r
    with at_resume_wild[OF i] px show ?thesis by simp
  next
    case p
    then obtain ts sp' where pl: "prefix_match p t (px s) (tx s) ts sp'"
      "\<forall>k. ts \<noteq> [] \<longrightarrow> last ts \<noteq> Named k"
      unfolding plain_state_def by blast
    from pl(1) px sp have "ts = ts0 @ [Named k]" by (simp add: prefix_match_def)
    with pl(2) show ?thesis by simp
  next
    case n
    from pending_facts[OF n] tx obtain ts1 sp0 j0 k1 where
      g: "prefix_match p t (px s) (tx s) (ts1 @ [Named k1]) (sp0 @ [span_of t j0 (tx s)])"
        "0 < px s" "p ! (px s - 1) = CHR ''}''" "key s = k1"
        "slice t (vx s) (tx s) = Inr (span_of t j0 (tx s))"
      by (metis order_refl)
    let ?v = "span_of t j0 (tx s)"
    from g(1) px sp have eq: "ts1 = ts0" "k1 = k" by (simp_all add: prefix_match_def)
    from f g(2-5) px have vs: "vs' = Vars_Set (vars s) k1 ?v"
      unfolding finish_def by (simp split: if_splits)
    from g(1) px tx have "spec_match (ts1 @ [Named k1]) (sp0 @ [?v]) t"
      by (simp add: prefix_match_def spec_match_def)
    with vs eq show ?thesis by blast
  qed
qed

lemma Match_last_named:
  assumes m: "Match p t vs = Inr (True, vs')" and sp: "spec_parse p = Some (ts0 @ [Named k])"
  shows "\<exists>sp0 w. spec_match (ts0 @ [Named k]) (sp0 @ [w]) t \<and> (k, w) \<in> set vs' \<and>
           Vars_Get vs' k = w"
proof -
  let ?Q = "\<lambda>r. fst r \<longrightarrow> (\<exists>sp0 w vsx. spec_match (ts0 @ [Named k]) (sp0 @ [w]) t \<and>
      snd r = Vars_Set vsx k w)"
  from m have "Match_loop p t
      \<lparr>key = [], nx = 0, vx = 0, px = 0, tx = 0, nextPx = 0, nextTx = 0, vars = vs\<rparr>
      = Inr (True, vs')"
    by (simp add: Match_def)
  then have "?Q (True, vs')"
  proof (rule Match_loop_invariant[where I = "Match_inv p t vs False" and Q = ?Q])
    show "Match_inv p t vs False
      \<lparr>key = [], nx = 0, vx = 0, px = 0, tx = 0, nextPx = 0, nextTx = 0, vars = vs\<rparr>"
      by (rule Match_inv_init)
  next
    fix s s'
    assume "Match_inv p t vs False s" "Match_body p t s = Inr (Continue s')"
    then show "Match_inv p t vs False s'" using step_body by blast
  next
    fix s b vs
    assume "Match_body p t s = Inr (Return b vs)"
    then show "?Q (b, vs)" using body_Return by fastforce
  next
    fix s r
    assume "Match_inv p t vs False s" "\<not> (px s < length p \<or> tx s < length t)"
      "finish p t s = Inr r"
    then show "?Q r" using finish_last_named[of p t vs False s "fst r" "snd r", OF _ _ _ sp]
      by auto
  qed
  then obtain sp0 w vsx where "spec_match (ts0 @ [Named k]) (sp0 @ [w]) t"
    "vs' = Vars_Set vsx k w" by auto
  then show ?thesis using Vars_Set_mem Vars_Get_Set by blast
qed

lemma IndexByte_snoc: "c \<notin> set ys \<Longrightarrow> IndexByte (ys @ c # zs) c = int (length ys)"
  by (induction ys) (auto simp: Let_def)

lemma Match_literals_then_named:
  assumes lit: "\<forall>c \<in> set l. c \<noteq> CHR ''*'' \<and> c \<noteq> CHR ''?'' \<and> c \<noteq> CHR ''{'' \<and> c \<noteq> CHR ''}''"
    and k: "CHR ''}'' \<notin> set k"
  shows "Match (l @ CHR ''{'' # k @ [CHR ''}'']) l vs = Inr (True, Vars_Set vs k [])"
proof -
  let ?p = "l @ CHR ''{'' # k @ [CHR ''}'']"
  let ?st = "\<lambda>i. \<lparr>key = [], nx = 0, vx = 0, px = i, tx = i, nextPx = 0, nextTx = 0, vars = vs\<rparr>"
  let ?n = "length l"
  have lenp: "length ?p = ?n + length k + 2" by simp
  have last: "Match_loop ?p l (?st ?n) = Inr (True, Vars_Set vs k [])"
  proof -
    let ?s2 = "\<lparr>key = k, nx = ?n + 1 + length k, vx = ?n, px = ?n + length k + 2, tx = ?n,
        nextPx = ?n, nextTx = ?n + 1, vars = vs\<rparr>"
    have "drop (?n + 1) ?p = k @ [CHR ''}'']" by simp
    then have ib: "IndexByte (drop (?n + 1) ?p) CHR ''}'' = int (length k)"
      using IndexByte_snoc[OF k, of "[]"] by simp
    have at: "?p ! ?n = CHR ''{''" by (simp add: nth_append)
    have "wildcard ?p (?st ?n) CHR ''{'' = Inr (Continue ?s2)"
      unfolding wildcard_def Let_def using ib by simp
    then have b: "Match_body ?p l (?st ?n) = Inr (Continue ?s2)"
      unfolding Match_body_def Let_def using at by simp
    have "?p ! (?n + length k + 1) = CHR ''}''"
      by (simp add: nth_append)
    then have "finish ?p l ?s2 = Inr (True, Vars_Set vs k [])"
      unfolding finish_def slice_def by simp
    moreover have "Match_loop ?p l ?s2 = finish ?p l ?s2"
      by (rule Match_loop_exit) simp
    moreover have "Match_loop ?p l (?st ?n) = Match_loop ?p l ?s2"
      by (rule Match_loop_continue[OF _ b]) simp
    ultimately show ?thesis by simp
  qed
  have "Match_loop ?p l (?st (?n - d)) = Inr (True, Vars_Set vs k [])" if "d \<le> ?n" for d
    using that
  proof (induction d)
    case 0
    then show ?case using last by simp
  next
    case (Suc d)
    define i where "i = ?n - Suc d"
    from Suc.prems have i: "i < ?n" "Suc i = ?n - d" by (simp_all add: i_def)
    have pi: "?p ! i = l ! i" using i(1) by (simp add: nth_append)
    have li: "l ! i \<in> set l" using i(1) by simp
    have prev: "0 < i \<longrightarrow> ?p ! (i - 1) \<noteq> CHR ''}''"
    proof
      assume "0 < i"
      with i(1) have lt: "i - 1 < ?n" by simp
      then have "?p ! (i - 1) = l ! (i - 1)" by (simp add: nth_append)
      moreover from lt have "l ! (i - 1) \<in> set l" by simp
      ultimately show "?p ! (i - 1) \<noteq> CHR ''}''" using lit by metis
    qed
    have "literal ?p l (?st i) = Inr (Continue (?st (Suc i)))"
      unfolding literal_def using prev by auto
    then have b: "Match_body ?p l (?st i) = Inr (Continue (?st (Suc i)))"
      unfolding Match_body_def Let_def using i(1) pi li lit by auto
    have "Match_loop ?p l (?st i) = Match_loop ?p l (?st (Suc i))"
      by (rule Match_loop_continue[OF _ b]) (use i(1) in simp)
    moreover have "Match_loop ?p l (?st (?n - d)) = Inr (True, Vars_Set vs k [])"
      using Suc by simp
    ultimately show ?case using i(2) by (simp add: i_def)
  qed
  from this[of ?n] show ?thesis by (simp add: Match_def)
qed

section \<open>The claims about \<open>Match\<close> that rest on the reference semantics\<close>

text \<open>
  C1. After every successful match the capture list is claimed to hold one entry for
  each distinct named term of the pattern, with the span the term took in the accepted
  match. The code binds a capture in two places only: when a literal matches right
  after the capture's \<open>}\<close>, and after the loop when the pattern ends with \<open>}\<close>; both
  tests look at the character \<open>pattern[px-1]\<close> alone. So a named term that is followed
  by \<open>?\<close>, \<open>*\<close> or another named term is never bound: \<open>Match("{1}?", "ab", vars)\<close>
  with an empty list returns true, the text splits as \<open>a\<close> for \<open>{1}\<close> and \<open>b\<close> for
  \<open>?\<close>, and the list is still empty. And a literal \<open>}\<close> is taken for the end of a
  capture: \<open>Match("}a", "}a", vars)\<close> returns true with the key \<open>""\<close> bound to \<open>}\<close>,
  though the pattern has no named term.
\<close>

theorem Match_named_term_unbound:
  "Match ''{1}?'' ''ab'' [] = Inr (True, []) \<and>
   spec_parse ''{1}?'' = Some [Named ''1'', AnyOne] \<and>
   spec_match [Named ''1'', AnyOne] [''a'', ''b''] ''ab'' \<and>
   Match ''}a'' ''}a'' [] = Inr (True, [([], ''}'')]) \<and>
   spec_parse ''}a'' = Some [Lit CHR ''}'', Lit CHR ''a'']"
proof (intro conjI)
  show "Match ''{1}?'' ''ab'' [] = Inr (True, [])" by code_simp
  show "spec_parse ''{1}?'' = Some [Named ''1'', AnyOne]" by simp
  show "spec_match [Named ''1'', AnyOne] [''a'', ''b''] ''ab''" by code_simp
  show "Match ''}a'' ''}a'' [] = Inr (True, [([], ''}'')])" by code_simp
  show "spec_parse ''}a'' = Some [Lit CHR ''}'', Lit CHR ''a'']" by simp
qed

text \<open>
  What does hold: on a capture-friendly pattern (every named term is followed by a
  literal character or ends the pattern, and \<open>}\<close> occurs only as the closer of a named
  term), whenever \<open>Match\<close> returns true the text can be cut into one span per term, and
  the capture list afterwards is the one passed in, updated by \<open>Set(name, span)\<close> for
  each named term in pattern order, with the spans of that one cut. A list that was
  empty at the call then holds exactly one entry per distinct name.
\<close>

lemma Match_captures:
  assumes "Match p t vs0 = Inr (True, vs')" and "friendly_pattern p"
  shows "\<exists>ts sp. spec_parse p = Some ts \<and> spec_match ts sp t \<and>
           vs' = set_all vs0 (spec_captures ts sp) \<and>
           (vs0 = [] \<longrightarrow> distinct (map fst vs') \<and> set (map fst vs') = set (term_names ts)) \<and>
           (vs0 = [] \<and> distinct (term_names ts) \<longrightarrow> vs' = spec_captures ts sp)"
proof -
  from Match_sound[OF assms(1), of True] assms(2) obtain ts sp where
    a: "spec_parse p = Some ts" "spec_match ts sp t" "vs' = set_all vs0 (spec_captures ts sp)"
    by auto
  from a(2) have len: "length ts = length sp"
    unfolding spec_match_def using list_all2_lengthD by blast
  note nm = spec_captures_names[OF len]
  have "fst ` set (spec_captures ts sp) = set (term_names ts)"
    using nm by (metis set_map)
  then have "vs0 = [] \<longrightarrow> distinct (map fst vs') \<and> set (map fst vs') = set (term_names ts)"
    using a(3) set_all_distinct[of "[]" "spec_captures ts sp"]
      set_all_keys[of "[]" "spec_captures ts sp"] by simp
  moreover have "vs0 = [] \<and> distinct (term_names ts) \<longrightarrow> vs' = spec_captures ts sp"
    using a(3) set_all_fresh[of "spec_captures ts sp"] nm by simp
  ultimately show ?thesis using a by blast
qed

lemma Match_captures_example:
  "Match ''a{1}b{2}c{3}d{4}e{5}/f'' ''axbxcxdxexxx/f'' [] =
     Inr (True, [(''1'', ''x''), (''2'', ''x''), (''3'', ''x''), (''4'', ''x''), (''5'', ''xxx'')]) \<and>
   friendly_pattern ''a{1}b{2}c{3}d{4}e{5}/f'' \<and>
   (\<exists>ts sp. spec_parse ''a{1}b{2}c{3}d{4}e{5}/f'' = Some ts \<and>
      spec_match ts sp ''axbxcxdxexxx/f'' \<and>
      [(''1'', ''x''), (''2'', ''x''), (''3'', ''x''), (''4'', ''x''), (''5'', ''xxx'')] =
        spec_captures ts sp)"
proof -
  have m: "Match ''a{1}b{2}c{3}d{4}e{5}/f'' ''axbxcxdxexxx/f'' [] =
     Inr (True, [(''1'', ''x''), (''2'', ''x''), (''3'', ''x''), (''4'', ''x''), (''5'', ''xxx'')])"
    by code_simp
  have f: "friendly_pattern ''a{1}b{2}c{3}d{4}e{5}/f''"
    by code_simp
  have d: "spec_parse ''a{1}b{2}c{3}d{4}e{5}/f'' = Some ts \<Longrightarrow> distinct (term_names ts)" for ts
    by auto
  from Match_captures[OF m f] d show ?thesis
    using m f by blast
qed

text \<open>Entries that were in the list at the call and are not named in the pattern stay.\<close>

lemma Match_keeps_entries:
  "Match ''a'' ''a'' [(''k'', ''v'')] = Inr (True, [(''k'', ''v'')]) \<and>
   map_option term_names (spec_parse ''a'') = Some []"
proof
  show "Match ''a'' ''a'' [(''k'', ''v'')] = Inr (True, [(''k'', ''v'')])"
    by code_simp
  show "map_option term_names (spec_parse ''a'') = Some []"
    by simp
qed

text \<open>
  C7. A named term that ends the pattern is bound by the code after the loop, to the
  span it took, and that span may be empty. Whenever \<open>Match\<close> returns true on a pattern
  whose last term is \<open>{k}\<close>, the text can be cut into spans for the terms and the
  capture list holds an entry for \<open>k\<close> with the last span, which \<open>Get\<close> returns. On a
  pattern made of literal characters followed by \<open>{n}\<close>, the text made of those
  characters matches, and \<open>n\<close> is bound to the empty string. In particular
  \<open>Match("a{1}", "a", vars)\<close> returns true, the list then holds the pair of \<open>1\<close> and
  the empty string (it is the whole list when the list was empty), and \<open>vars.Get("1")\<close>
  is empty.
\<close>

theorem Match_zero_length_capture:
  "(Match p t vs = Inr (True, vs') \<and> spec_parse p = Some (pre @ [Named k]) \<longrightarrow>
      (\<exists>sp0 w. spec_match (pre @ [Named k]) (sp0 @ [w]) t \<and> (k, w) \<in> set vs' \<and>
         Vars_Get vs' k = w)) \<and>
   ((\<forall>c \<in> set l. c \<noteq> CHR ''*'' \<and> c \<noteq> CHR ''?'' \<and> c \<noteq> CHR ''{'' \<and> c \<noteq> CHR ''}'') \<and>
    CHR ''}'' \<notin> set n \<longrightarrow>
      Match (l @ CHR ''{'' # n @ [CHR ''}'']) l vs = Inr (True, Vars_Set vs n []) \<and>
      (n, []) \<in> set (Vars_Set vs n []) \<and> Vars_Get (Vars_Set vs n []) n = []) \<and>
   Match ''a{1}'' ''a'' vs = Inr (True, Vars_Set vs ''1'' []) \<and>
   (''1'', []) \<in> set (Vars_Set vs ''1'' []) \<and>
   Vars_Get (Vars_Set vs ''1'' []) ''1'' = [] \<and>
   Match ''a{1}'' ''a'' [] = Inr (True, [(''1'', [])])"
proof (intro conjI impI)
  assume "Match p t vs = Inr (True, vs') \<and> spec_parse p = Some (pre @ [Named k])"
  then have "Match p t vs = Inr (True, vs')" "spec_parse p = Some (pre @ [Named k])"
    by simp_all
  then show "\<exists>sp0 w. spec_match (pre @ [Named k]) (sp0 @ [w]) t \<and> (k, w) \<in> set vs' \<and>
         Vars_Get vs' k = w"
    by (rule Match_last_named)
next
  assume a: "(\<forall>c \<in> set l. c \<noteq> CHR ''*'' \<and> c \<noteq> CHR ''?'' \<and> c \<noteq> CHR ''{'' \<and> c \<noteq> CHR ''}'') \<and>
    CHR ''}'' \<notin> set n"
  then have "\<forall>c \<in> set l. c \<noteq> CHR ''*'' \<and> c \<noteq> CHR ''?'' \<and> c \<noteq> CHR ''{'' \<and> c \<noteq> CHR ''}''"
    "CHR ''}'' \<notin> set n"
    by simp_all
  then show "Match (l @ CHR ''{'' # n @ [CHR ''}'']) l vs = Inr (True, Vars_Set vs n [])"
    by (rule Match_literals_then_named)
  show "(n, []) \<in> set (Vars_Set vs n [])" by (rule Vars_Set_mem)
  show "Vars_Get (Vars_Set vs n []) n = []" by (rule Vars_Get_Set)
next
  have m: "Match ''a{1}'' ''a'' vs = Inr (True, Vars_Set vs ''1'' [])" for vs
    unfolding Match_def
    by (subst Match_loop.simps,
        simp add: Match_body_def literal_def wildcard_def finish_def slice_def Let_def)+
  show "Match ''a{1}'' ''a'' vs = Inr (True, Vars_Set vs ''1'' [])" by (rule m)
  show "Match ''a{1}'' ''a'' [] = Inr (True, [(''1'', [])])" using m[of "[]"] by simp
  show "(''1'', []) \<in> set (Vars_Set vs ''1'' [])" by (rule Vars_Set_mem)
  show "Vars_Get (Vars_Set vs ''1'' []) ''1'' = []" by (rule Vars_Get_Set)
qed

theorem Match_zero_length_capture_witness:
  "Match ''/{1}'' ''/'' [] = Inr (True, [(''1'', [])]) \<and>
   spec_parse ''/{1}'' = Some ([Lit CHR ''/''] @ [Named ''1'']) \<and>
   (\<exists>sp0 w. spec_match ([Lit CHR ''/''] @ [Named ''1'']) (sp0 @ [w]) ''/'' \<and>
      (''1'', w) \<in> set [(''1'', [])] \<and> Vars_Get [(''1'', [])] ''1'' = w) \<and>
   Match ''ab{id}'' ''ab'' [(''x'', ''y''), (''id'', ''old'')] =
     Inr (True, [(''x'', ''y''), (''id'', [])])"
proof -
  have m: "Match ''/{1}'' ''/'' [] = Inr (True, [(''1'', [])])" by code_simp
  have sp: "spec_parse ''/{1}'' = Some ([Lit CHR ''/''] @ [Named ''1''])" by simp
  have h: "(\<forall>c \<in> set ''ab''. c \<noteq> CHR ''*'' \<and> c \<noteq> CHR ''?'' \<and> c \<noteq> CHR ''{'' \<and> c \<noteq> CHR ''}'') \<and>
    CHR ''}'' \<notin> set ''id''" by simp
  note t = Match_zero_length_capture[where p = "''/{1}''" and t = "''/''" and vs' = "[(''1'', [])]"
      and pre = "[Lit CHR ''/'']" and k = "''1''" and l = "''ab''" and n = "''id''"]
  from t[of "[]"] m sp have 1: "\<exists>sp0 w. spec_match ([Lit CHR ''/''] @ [Named ''1'']) (sp0 @ [w]) ''/'' \<and>
      (''1'', w) \<in> set [(''1'', [])] \<and> Vars_Get [(''1'', [])] ''1'' = w"
    by blast
  from t[of "[(''x'', ''y''), (''id'', ''old'')]"] h
  have "Match (''ab'' @ CHR ''{'' # ''id'' @ [CHR ''}'']) ''ab'' [(''x'', ''y''), (''id'', ''old'')]
      = Inr (True, Vars_Set [(''x'', ''y''), (''id'', ''old'')] ''id'' [])"
    by blast
  then have 2: "Match ''ab{id}'' ''ab'' [(''x'', ''y''), (''id'', ''old'')] =
     Inr (True, [(''x'', ''y''), (''id'', [])])"
    by simp
  from m sp 1 2 show ?thesis by blast
qed

text \<open>
  C5. A \<open>*\<close> or \<open>{name}\<close> never matches across a \<open>/\<close>: whenever \<open>Match\<close> returns true,
  the text can be cut into one span per term of the pattern such that the span of
  every \<open>*\<close> and of every named term is free of \<open>/\<close>. And \<open>Match("a*/b", "a/c/b")\<close> is
  false while \<open>Match("a*/b", "abc/b")\<close> is true, whatever the capture list is.
\<close>

theorem Match_wildcards_stop_at_slash:
  "(Match p t vs = Inr (True, vs') \<longrightarrow>
      (\<exists>ts sp. spec_parse p = Some ts \<and> spec_match ts sp t \<and>
         (\<forall>i < length ts. ts ! i = Star \<or> (\<exists>k. ts ! i = Named k) \<longrightarrow> CHR ''/'' \<notin> set (sp ! i)))) \<and>
   Match ''a*/b'' ''a/c/b'' vs = Inr (False, []) \<and>
   Match ''a*/b'' ''abc/b'' vs = Inr (True, vs)"
proof (intro conjI impI)
  assume "Match p t vs = Inr (True, vs')"
  from Match_sound[OF this, of False] obtain ts sp where
    a: "spec_parse p = Some ts" "spec_match ts sp t" by auto
  have "CHR ''/'' \<notin> set (sp ! i)" if "i < length ts" "ts ! i = Star \<or> (\<exists>k. ts ! i = Named k)" for i
  proof -
    from a(2) that(1) have "spec_span (ts ! i) (sp ! i)"
      unfolding spec_match_def by (simp add: list_all2_nthD)
    with that(2) show ?thesis by auto
  qed
  with a show "\<exists>ts sp. spec_parse p = Some ts \<and> spec_match ts sp t \<and>
         (\<forall>i < length ts. ts ! i = Star \<or> (\<exists>k. ts ! i = Named k) \<longrightarrow> CHR ''/'' \<notin> set (sp ! i))"
    by blast
next
  show "Match ''a*/b'' ''a/c/b'' vs = Inr (False, [])"
    unfolding Match_def
    by (subst Match_loop.simps,
        simp add: Match_body_def literal_def wildcard_def retry_def finish_def slice_def
          Vars_Reset_def Let_def)+
next
  show "Match ''a*/b'' ''abc/b'' vs = Inr (True, vs)"
    unfolding Match_def
    by (subst Match_loop.simps,
        simp add: Match_body_def literal_def wildcard_def retry_def finish_def slice_def
          Vars_Reset_def Let_def)+
qed

theorem Match_wildcards_stop_at_slash_witness:
  "Match ''a{1}/b'' ''abc/b'' [] = Inr (True, [(''1'', ''bc'')]) \<and>
   (\<exists>ts sp. spec_parse ''a{1}/b'' = Some ts \<and> spec_match ts sp ''abc/b'' \<and>
      (\<forall>i < length ts. ts ! i = Star \<or> (\<exists>k. ts ! i = Named k) \<longrightarrow> CHR ''/'' \<notin> set (sp ! i)))"
proof -
  have m: "Match ''a{1}/b'' ''abc/b'' [] = Inr (True, [(''1'', ''bc'')])"
    by code_simp
  from Match_wildcards_stop_at_slash[of "''a{1}/b''" "''abc/b''" "[]" "[(''1'', ''bc'')]"] m
  show ?thesis by blast
qed




end
